theory Spec2Isabelle
  imports Main
begin

section \<open>Entity model (models.py)\<close>

text \<open>
  The enums of models.py become datatypes and each table a record of its columns. Record
  fields are global constants, so the primary keys are \<open>m_id\<close>, \<open>i_id\<close>, \<open>d_id\<close> and the
  fields of the pydantic input schemas carry the prefixes \<open>mc_\<close>, \<open>td_\<close> and \<open>dc_\<close>.
  Python's integers are unbounded: \<open>int\<close>. A nullable column is an \<open>option\<close>.
\<close>

datatype MatchStatus = SCHEDULED | LIVE | COMPLETED | ABANDONED

datatype TossDecision = BAT | FIELD

type_synonym datetime = int

record Match =
  m_id :: int
  match_date :: datetime
  venue :: "string option"
  status :: MatchStatus
  tournament_id :: "int option"
  team1_id :: int
  team2_id :: int
  toss_winner_id :: "int option"
  toss_decision :: "TossDecision option"
  winner_id :: "int option"

record Inning =
  i_id :: int
  match_id :: int
  batting_team_id :: int
  bowling_team_id :: int
  total_runs :: int
  wickets :: int
  overs_bowled :: int
  balls_bowled :: int
  is_completed :: bool

record Delivery =
  d_id :: int
  inning_id :: int
  batsman_id :: int
  bowler_id :: int
  runs_scored :: int
  is_extra :: bool
  extra_type :: "string option"
  is_wicket :: bool
  wicket_type :: "string option"

section \<open>Input schemas (schemas.py)\<close>

record MatchCreate =
  mc_match_date :: datetime
  mc_venue :: "string option"
  mc_team1_id :: int
  mc_team2_id :: int

record TossData =
  td_toss_winner_id :: int
  td_decision :: TossDecision

record DeliveryCreate =
  dc_inning_id :: int
  dc_batsman_id :: int
  dc_bowler_id :: int
  dc_runs_scored :: int
  dc_is_wicket :: bool
  dc_is_extra :: bool
  dc_wicket_type :: "string option"

section \<open>The database\<close>

text \<open>
  The session is the three tables the scoring code touches, in insertion order, and the
  sequences that hand out the primary keys. A function of crud.py takes the database and
  returns its result together with the database after \<open>db.commit()\<close>; a path that returns
  or raises before the commit returns the database it was given.
\<close>

record database =
  matches :: "Match list"
  innings :: "Inning list"
  deliveries :: "Delivery list"
  next_match_id :: int
  next_inning_id :: int
  next_delivery_id :: int

definition empty_db :: database where
  "empty_db = \<lparr>matches = [], innings = [], deliveries = [],
               next_match_id = 1, next_inning_id = 1, next_delivery_id = 1\<rparr>"

text \<open>Exceptions that the scoring code can raise, and the one main.py raises.\<close>

datatype error = AttributeError | IndexError

datatype http_error = HTTPException int string

text \<open>\<open>db.query(models.Inning).filter(models.Inning.id == k).first()\<close>\<close>

definition get_inning :: "database \<Rightarrow> int \<Rightarrow> Inning option" where
  "get_inning db k = find (\<lambda>i. i_id i = k) (innings db)"

text \<open>An attribute written on a loaded row reaches the table at the commit.\<close>

definition put_inning :: "Inning \<Rightarrow> Inning list \<Rightarrow> Inning list" where
  "put_inning inning rows = map (\<lambda>i. if i_id i = i_id inning then inning else i) rows"

definition put_match :: "Match \<Rightarrow> Match list \<Rightarrow> Match list" where
  "put_match match rows = map (\<lambda>m. if m_id m = m_id match then match else m) rows"

text \<open>The relationship \<open>match.innings\<close>: the innings whose foreign key is the match.\<close>

definition innings_of :: "Inning list \<Rightarrow> int \<Rightarrow> Inning list" where
  "innings_of rows k = filter (\<lambda>i. match_id i = k) rows"

text \<open>\<open>sorted(match.innings, key=lambda i: i.id)\<close>; both sorts are stable.\<close>

definition all_innings :: "database \<Rightarrow> int \<Rightarrow> Inning list" where
  "all_innings db k = sort_key i_id (innings_of (innings db) k)"

text \<open>
  Python's \<open>not match.winner_id\<close> on a nullable integer: true for \<open>None\<close> and for \<open>0\<close>.
\<close>

definition not_int :: "int option \<Rightarrow> bool" where
  "not_int v = (v = None \<or> v = Some 0)"

section \<open>crud.py\<close>

definition create_match :: "database \<Rightarrow> MatchCreate \<Rightarrow> int option \<Rightarrow> Match \<times> database" where
  "create_match db match tournament =
    (let db_match = \<lparr>m_id = next_match_id db, match_date = mc_match_date match,
                      venue = mc_venue match, status = SCHEDULED, tournament_id = tournament,
                      team1_id = mc_team1_id match, team2_id = mc_team2_id match,
                      toss_winner_id = None, toss_decision = None, winner_id = None\<rparr>
     in (db_match, db\<lparr>matches := matches db @ [db_match],
                      next_match_id := next_match_id db + 1\<rparr>))"

definition get_match_by_id :: "database \<Rightarrow> int \<Rightarrow> Match option" where
  "get_match_by_id db k = find (\<lambda>m. m_id m = k) (matches db)"

text \<open>
  \<open>update_match_toss\<close> (lines 69-100). \<open>None\<close> is returned when the match is missing and
  when it already has innings. The two new rows take the next two ids of the sequence in
  the order of \<open>db.add_all([inning1, inning2])\<close>; their counters are the column defaults.
  The teams table is not part of the model: every team id is taken to have a row in it,
  as the foreign keys of models.py (lines 131, 152-153) demand of a stored id. For an id
  without a row the commit of line 98 raises and stores nothing; no statement below is
  about such an id.
\<close>

definition update_match_toss :: "database \<Rightarrow> int \<Rightarrow> TossData \<Rightarrow> Match option \<times> database" where
  "update_match_toss db mid toss_data =
    (case get_match_by_id db mid of
       None \<Rightarrow> (None, db)
     | Some db_match \<Rightarrow>
        if innings_of (innings db) (m_id db_match) \<noteq> [] then (None, db)
        else
          (let db_match = db_match\<lparr>toss_winner_id := Some (td_toss_winner_id toss_data),
                                   toss_decision := Some (td_decision toss_data)\<rparr>;
               toss_loser_id = (if td_toss_winner_id toss_data = team1_id db_match
                                then team2_id db_match else team1_id db_match);
               first_batting_team_id = (if td_decision toss_data = BAT
                                        then td_toss_winner_id toss_data else toss_loser_id);
               first_bowling_team_id = (if td_decision toss_data = BAT
                                        then toss_loser_id else td_toss_winner_id toss_data);
               inning1 = \<lparr>i_id = next_inning_id db, match_id = mid,
                          batting_team_id = first_batting_team_id,
                          bowling_team_id = first_bowling_team_id,
                          total_runs = 0, wickets = 0, overs_bowled = 0, balls_bowled = 0,
                          is_completed = False\<rparr>;
               inning2 = \<lparr>i_id = next_inning_id db + 1, match_id = mid,
                          batting_team_id = first_bowling_team_id,
                          bowling_team_id = first_batting_team_id,
                          total_runs = 0, wickets = 0, overs_bowled = 0, balls_bowled = 0,
                          is_completed = False\<rparr>
           in (Some db_match,
               db\<lparr>matches := put_match db_match (matches db),
                  innings := innings db @ [inning1, inning2],
                  next_inning_id := next_inning_id db + 2\<rparr>)))"

text \<open>Steps 3 and 4 of \<open>record_delivery\<close> (lines 132-145): runs, wickets, balls and overs.\<close>

definition update_score :: "Inning \<Rightarrow> DeliveryCreate \<Rightarrow> Inning" where
  "update_score inning delivery =
    (let inning = inning\<lparr>total_runs := total_runs inning + dc_runs_scored delivery\<rparr>;
         inning = (if dc_is_extra delivery
                   then inning\<lparr>total_runs := total_runs inning + 1\<rparr> else inning);
         inning = (if dc_is_wicket delivery
                   then inning\<lparr>wickets := wickets inning + 1\<rparr> else inning)
     in if \<not> dc_is_extra delivery then
          (let inning = inning\<lparr>balls_bowled := balls_bowled inning + 1\<rparr>
           in if balls_bowled inning = 6
              then inning\<lparr>overs_bowled := overs_bowled inning + 1, balls_bowled := 0\<rparr>
              else inning)
        else inning)"

text \<open>
  Step 6 (lines 151-177), given the scored inning, the match after step 5 and
  \<open>all_innings[0]\<close>. The flag \<open>is_inning_over\<close> and the match are threaded as the code
  assigns them.
\<close>

definition check_end :: "Match \<Rightarrow> Inning \<Rightarrow> Inning \<Rightarrow> Inning \<times> Match" where
  "check_end match inning first =
    (let is_inning_over = (wickets inning \<ge> 10 \<or> overs_bowled inning \<ge> 20);
         is_first_inning = (i_id inning = i_id first);
         (is_inning_over, match) =
           (if \<not> is_first_inning then
              (let first_inning_score = total_runs first
               in if total_runs inning > first_inning_score
                  then (True, match\<lparr>winner_id := Some (batting_team_id inning),
                                    status := COMPLETED\<rparr>)
                  else (is_inning_over, match))
            else (is_inning_over, match))
     in if is_inning_over then
          (let inning = inning\<lparr>is_completed := True\<rparr>
           in if \<not> is_first_inning \<and> not_int (winner_id match) then
                (let first_inning_score = total_runs first;
                     match = (if total_runs inning > first_inning_score
                              then match\<lparr>winner_id := Some (batting_team_id inning)\<rparr>
                              else if first_inning_score > total_runs inning
                              then match\<lparr>winner_id := Some (bowling_team_id inning)\<rparr>
                              else match)
                 in (inning, match\<lparr>status := COMPLETED\<rparr>))
              else (inning, match))
        else (inning, match))"

text \<open>Step 5 (lines 148-149): the first ball takes a scheduled match live.\<close>

definition go_live :: "Match \<Rightarrow> Match" where
  "go_live match = (if status match = SCHEDULED then match\<lparr>status := LIVE\<rparr> else match)"

text \<open>
  \<open>record_delivery\<close> (lines 104-182). \<open>Inr None\<close> is the code's \<open>return None\<close>, \<open>Inl\<close> an
  exception: \<open>match.status\<close> on an inning whose match row is missing, and \<open>all_innings[0]\<close>
  on an empty list. The mutated inning is the object that \<open>match.innings\<close> holds, so the
  sorted list is taken with the scored inning in place.
\<close>

definition record_delivery ::
  "database \<Rightarrow> int \<Rightarrow> DeliveryCreate \<Rightarrow> (error + Delivery option) \<times> database" where
  "record_delivery db mid delivery =
    (case get_inning db (dc_inning_id delivery) of
       None \<Rightarrow> (Inr None, db)
     | Some inning \<Rightarrow>
        if match_id inning \<noteq> mid then (Inr None, db)
        else
          (case get_match_by_id db (match_id inning) of
             None \<Rightarrow> (Inl AttributeError, db)
           | Some match \<Rightarrow>
              if status match = COMPLETED \<or> is_completed inning then (Inr None, db)
              else
                (let db_delivery = \<lparr>d_id = next_delivery_id db,
                                    inning_id = dc_inning_id delivery,
                                    batsman_id = dc_batsman_id delivery,
                                    bowler_id = dc_bowler_id delivery,
                                    runs_scored = dc_runs_scored delivery,
                                    is_extra = dc_is_extra delivery,
                                    extra_type = None,
                                    is_wicket = dc_is_wicket delivery,
                                    wicket_type = dc_wicket_type delivery\<rparr>;
                     inning = update_score inning delivery;
                     match = go_live match
                 in case sort_key i_id (innings_of (put_inning inning (innings db)) (m_id match)) of
                      [] \<Rightarrow> (Inl IndexError, db)
                    | first # _ \<Rightarrow>
                       (case check_end match inning first of
                          (inning, match) \<Rightarrow>
                            (Inr (Some db_delivery),
                             db\<lparr>matches := put_match match (matches db),
                                innings := put_inning inning (innings db),
                                deliveries := deliveries db @ [db_delivery],
                                next_delivery_id := next_delivery_id db + 1\<rparr>)))))"

section \<open>main.py\<close>

text \<open>The endpoint \<open>POST /matches/{match_id}/toss\<close> (lines 131-147).\<close>

definition record_toss ::
  "database \<Rightarrow> int \<Rightarrow> TossData \<Rightarrow> (http_error + Match option) \<times> database" where
  "record_toss db mid toss_data =
    (case get_match_by_id db mid of
       None \<Rightarrow> (Inl (HTTPException 404 ''Match not found''), db)
     | Some db_match \<Rightarrow>
        if td_toss_winner_id toss_data \<notin> set [team1_id db_match, team2_id db_match]
        then (Inl (HTTPException 400
                ''Toss winner must be one of the two teams in the match.''), db)
        else (case update_match_toss db mid toss_data of
                (updated_match, db') \<Rightarrow> (Inr updated_match, db')))"

section \<open>Sequences of operations\<close>

text \<open>Successive scoring requests for one match, each of them accepted.\<close>

fun record_all :: "database \<Rightarrow> int \<Rightarrow> DeliveryCreate list \<Rightarrow> database option" where
  "record_all db mid [] = Some db"
| "record_all db mid (d # ds) =
     (case record_delivery db mid d of
        (Inr (Some _), db') \<Rightarrow> record_all db' mid ds
      | _ \<Rightarrow> None)"

text \<open>The states that the three mutating operations produce from the empty database.\<close>

inductive reachable :: "database \<Rightarrow> bool" where
  r_init: "reachable empty_db"
| r_create: "reachable db \<Longrightarrow> reachable (snd (create_match db mc t))"
| r_toss: "reachable db \<Longrightarrow> reachable (snd (update_match_toss db mid td))"
| r_deliver: "reachable db \<Longrightarrow> reachable (snd (record_delivery db mid d))"

text \<open>
  A scoring request keeps the order of the innings when it is for the first-created inning
  of the match or that inning is already completed. \<open>record_delivery\<close> does not check
  this; it is a discipline of the caller.
\<close>

definition in_order :: "database \<Rightarrow> int \<Rightarrow> DeliveryCreate \<Rightarrow> bool" where
  "in_order db mid d = (case all_innings db mid of
      [] \<Rightarrow> True
    | first # _ \<Rightarrow> dc_inning_id d = i_id first \<or> is_completed first)"

text \<open>The states reached when every scoring request keeps that order.\<close>

inductive reachable_in_order :: "database \<Rightarrow> bool" where
  o_init: "reachable_in_order empty_db"
| o_create: "reachable_in_order db \<Longrightarrow> reachable_in_order (snd (create_match db mc t))"
| o_toss: "reachable_in_order db \<Longrightarrow> reachable_in_order (snd (update_match_toss db mid td))"
| o_deliver: "reachable_in_order db \<Longrightarrow> in_order db mid d \<Longrightarrow>
     reachable_in_order (snd (record_delivery db mid d))"

fun play_in_order :: "database \<Rightarrow> int \<Rightarrow> DeliveryCreate list \<Rightarrow> database option" where
  "play_in_order db mid [] = Some db"
| "play_in_order db mid (d # ds) =
     (if in_order db mid d then play_in_order (snd (record_delivery db mid d)) mid ds else None)"

text \<open>The same requests with the outcome of each one ignored.\<close>

definition play :: "database \<Rightarrow> int \<Rightarrow> DeliveryCreate list \<Rightarrow> database" where
  "play db mid ds = foldl (\<lambda>db d. snd (record_delivery db mid d)) db ds"

text \<open>What one delivery adds to the total: the runs, and the penalty run of an extra.\<close>

definition runs_added :: "DeliveryCreate \<Rightarrow> int" where
  "runs_added d = dc_runs_scored d + (if dc_is_extra d then 1 else 0)"

text \<open>The legal (non-extra) deliveries of a sequence that are bowled in inning \<open>k\<close>.\<close>

definition legal_balls :: "int \<Rightarrow> DeliveryCreate list \<Rightarrow> int" where
  "legal_balls k ds = int (length (filter (\<lambda>d. dc_inning_id d = k \<and> \<not> dc_is_extra d) ds))"

section \<open>Invariants of the reachable states\<close>

text \<open>Inning ids are a primary key handed out by the sequence.\<close>

definition keys_ok :: "database \<Rightarrow> bool" where
  "keys_ok db = (distinct (map i_id (innings db)) \<and>
                 (\<forall>i\<in>set (innings db). i_id i < next_inning_id db))"

definition wickets_ok :: "database \<Rightarrow> bool" where
  "wickets_ok db = (\<forall>i\<in>set (innings db).
      0 \<le> wickets i \<and> wickets i \<le> 10 \<and> (wickets i = 10 \<longrightarrow> is_completed i))"

definition winner_ok :: "database \<Rightarrow> bool" where
  "winner_ok db = (\<forall>m\<in>set (matches db). status m \<noteq> COMPLETED \<longrightarrow> winner_id m = None)"

text \<open>A match has no innings, or two of them in id order with the teams swapped.\<close>

definition paired :: "Inning list \<Rightarrow> bool" where
  "paired rows = (case rows of
      [] \<Rightarrow> True
    | [i1, i2] \<Rightarrow> i_id i1 < i_id i2 \<and> batting_team_id i1 = bowling_team_id i2
                  \<and> bowling_team_id i1 = batting_team_id i2
    | _ \<Rightarrow> False)"

definition pairs_ok :: "database \<Rightarrow> bool" where
  "pairs_ok db = (\<forall>k. paired (innings_of (innings db) k))"

text \<open>Every delivery row refers to an inning id that the sequence has handed out.\<close>

definition refs_ok :: "database \<Rightarrow> bool" where
  "refs_ok db = (\<forall>dl\<in>set (deliveries db). inning_id dl < next_inning_id db)"

text \<open>A later inning of a match has deliveries only if the first-created one is completed.\<close>

definition waits_ok :: "database \<Rightarrow> bool" where
  "waits_ok db = (\<forall>dl\<in>set (deliveries db). \<forall>k first rest i.
      all_innings db k = first # rest \<longrightarrow> i \<in> set rest \<longrightarrow> inning_id dl = i_id i
        \<longrightarrow> is_completed first)"

section \<open>Example states\<close>

text \<open>One match between teams 1 and 2; team 1 wins the toss and bats.\<close>

definition ex_fixture :: MatchCreate where
  "ex_fixture = \<lparr>mc_match_date = 0, mc_venue = None, mc_team1_id = 1, mc_team2_id = 2\<rparr>"

definition ex_created :: database where
  "ex_created = snd (create_match empty_db ex_fixture None)"

definition ex_tossed :: database where
  "ex_tossed = snd (update_match_toss ex_created 1 \<lparr>td_toss_winner_id = 1, td_decision = BAT\<rparr>)"

definition ball :: "int \<Rightarrow> int \<Rightarrow> bool \<Rightarrow> bool \<Rightarrow> DeliveryCreate" where
  "ball k runs wicket extra = \<lparr>dc_inning_id = k, dc_batsman_id = 1, dc_bowler_id = 2,
     dc_runs_scored = runs, dc_is_wicket = wicket, dc_is_extra = extra, dc_wicket_type = None\<rparr>"

text \<open>The first inning bowled out by ten wicket balls.\<close>

definition ex_allout :: database where
  "ex_allout = play ex_tossed 1 (replicate 10 (ball 1 0 True False))"

text \<open>A four in the first inning, then nine wickets of the second for no run.\<close>

definition ex_nine_down :: database where
  "ex_nine_down = play ex_tossed 1 (ball 1 4 False False # replicate 9 (ball 2 0 True False))"

text \<open>
  The chase of the specification: 150 in twenty overs, and the second inning at 148 for 2
  after 15.2 overs.
\<close>

definition ex_chase :: database where
  "ex_chase = \<lparr>matches =
      [\<lparr>m_id = 1, match_date = 0, venue = None, status = LIVE, tournament_id = None,
        team1_id = 1, team2_id = 2, toss_winner_id = Some 1, toss_decision = Some BAT,
        winner_id = None\<rparr>],
     innings =
      [\<lparr>i_id = 1, match_id = 1, batting_team_id = 1, bowling_team_id = 2, total_runs = 150,
        wickets = 3, overs_bowled = 20, balls_bowled = 0, is_completed = True\<rparr>,
       \<lparr>i_id = 2, match_id = 1, batting_team_id = 2, bowling_team_id = 1, total_runs = 148,
        wickets = 2, overs_bowled = 15, balls_bowled = 2, is_completed = False\<rparr>],
     deliveries = [], next_match_id = 2, next_inning_id = 3, next_delivery_id = 1\<rparr>"

definition ex_chase_won :: database where
  "ex_chase_won = snd (record_delivery ex_chase 1 (ball 2 4 False False))"

text \<open>The tenth wicket of the second inning of \<open>ex_nine_down\<close>.\<close>

definition ex_ten_down :: database where
  "ex_ten_down = snd (record_delivery ex_nine_down 1 (ball 2 0 True False))"

text \<open>A four, a wide and a single: the single is bowled in the second inning.\<close>

definition ex_over :: "DeliveryCreate list" where
  "ex_over = [ball 1 4 False False, ball 1 0 False True, ball 2 1 False False]"

definition ex_scored :: database where
  "ex_scored = play ex_tossed 1 ex_over"

text \<open>Seven legal balls and a wide in the first inning.\<close>

definition ex_eight_balls :: "DeliveryCreate list" where
  "ex_eight_balls = [ball 1 1 False False, ball 1 0 False False, ball 1 0 False True,
     ball 1 2 False False, ball 1 0 False False, ball 1 0 False False, ball 1 4 False False,
     ball 1 0 False False]"

definition ex_second_over :: database where
  "ex_second_over = play ex_tossed 1 ex_eight_balls"

text \<open>After the toss the first ball goes to the second inning: a single, and a dot ball.\<close>

definition ex_early_win :: database where
  "ex_early_win = snd (record_delivery ex_tossed 1 (ball 2 1 False False))"

definition ex_both_open :: database where
  "ex_both_open = snd (record_delivery ex_tossed 1 (ball 2 0 False False))"

text \<open>A toss whose winner, the registered team 99, does not play the match.\<close>

definition ex_foreign_toss :: TossData where
  "ex_foreign_toss = \<lparr>td_toss_winner_id = 99, td_decision = BAT\<rparr>"

text \<open>The first inning bowled out, then a dot ball in the second.\<close>

definition ex_second_started :: database where
  "ex_second_started = snd (record_delivery ex_allout 1 (ball 2 0 False False))"

section \<open>Facts about the operations\<close>

subsection \<open>Rows and lookups\<close>

lemma find_put_inning:
  "find (\<lambda>i. i_id i = k) (put_inning b rows) =
     (if i_id b = k then map_option (\<lambda>_. b) (find (\<lambda>i. i_id i = k) rows)
      else find (\<lambda>i. i_id i = k) rows)"
  by (induction rows) (auto simp: put_inning_def)

lemma find_put_match:
  "find (\<lambda>m. m_id m = k) (put_match b rows) =
     (if m_id b = k then map_option (\<lambda>_. b) (find (\<lambda>m. m_id m = k) rows)
      else find (\<lambda>m. m_id m = k) rows)"
  by (induction rows) (auto simp: put_match_def)

lemma map_i_id_put_inning:
  "map i_id (put_inning b rows) = map i_id rows"
  by (induction rows) (simp_all add: put_inning_def)

lemma insort_key_map_commute:
  assumes "\<And>x. f (g x) = f x"
  shows "insort_key f (g x) (map g ys) = map g (insort_key f x ys)"
  by (induction ys) (simp_all add: assms)

lemma sort_key_map_commute:
  assumes "\<And>x. f (g x) = f x"
  shows "sort_key f (map g xs) = map g (sort_key f xs)"
  by (induction xs) (simp_all add: insort_key_map_commute assms)

lemma find_id_unique:
  assumes "distinct (map i_id rows)" and "find (\<lambda>i. i_id i = k) rows = Some a"
    and "x \<in> set rows" and "i_id x = k"
  shows "x = a"
proof -
  from assms(2) have "a \<in> set rows" and "i_id a = k"
    by (auto simp: find_Some_iff)
  with assms(1,3,4) show ?thesis
    by (metis distinct_map inj_onD)
qed

lemma innings_of_put_inning:
  assumes "distinct (map i_id rows)" and "find (\<lambda>i. i_id i = i_id b) rows = Some a"
    and "match_id b = match_id a"
  shows "innings_of (put_inning b rows) m = put_inning b (innings_of rows m)"
proof -
  have "\<And>x. x \<in> set rows \<Longrightarrow> i_id x = i_id b \<Longrightarrow> match_id b = match_id x"
    using find_id_unique [OF assms(1,2)] assms(3) by auto
  then have "filter ((\<lambda>i. match_id i = m) \<circ> (\<lambda>i. if i_id i = i_id b then b else i)) rows
      = filter (\<lambda>i. match_id i = m) rows"
    by (intro filter_cong) auto
  then show ?thesis
    by (simp add: innings_of_def put_inning_def filter_map)
qed

lemma sorted_innings_put_inning:
  assumes "distinct (map i_id rows)" and "find (\<lambda>i. i_id i = i_id b) rows = Some a"
    and "match_id b = match_id a"
  shows "sort_key i_id (innings_of (put_inning b rows) m)
       = put_inning b (sort_key i_id (innings_of rows m))"
proof -
  have "sort_key i_id (put_inning b (innings_of rows m)) = put_inning b (sort_key i_id (innings_of rows m))"
    unfolding put_inning_def by (rule sort_key_map_commute) simp
  then show ?thesis
    by (simp add: innings_of_put_inning [OF assms])
qed

lemma all_innings_facts:
  assumes "distinct (map i_id (innings db))" and "all_innings db k = first # rest"
  shows "first \<in> set (innings db)" and "set rest \<subseteq> set (innings db)"
    and "first \<notin> set rest" and "\<forall>i\<in>set (first # rest). match_id i = k"
proof -
  have s: "set (first # rest) = {i \<in> set (innings db). match_id i = k}"
    using assms(2) [symmetric] by (simp add: all_innings_def innings_of_def)
  then show "first \<in> set (innings db)" "set rest \<subseteq> set (innings db)"
    "\<forall>i\<in>set (first # rest). match_id i = k"
    by auto
  from assms(1) have "distinct (innings db)"
    by (simp add: distinct_map)
  then have "distinct (all_innings db k)"
    by (simp add: all_innings_def innings_of_def)
  with assms(2) show "first \<notin> set rest" by simp
qed

subsection \<open>The scoring steps\<close>

lemma update_score_keeps [simp]:
  "i_id (update_score i d) = i_id i"
  "match_id (update_score i d) = match_id i"
  "batting_team_id (update_score i d) = batting_team_id i"
  "bowling_team_id (update_score i d) = bowling_team_id i"
  "is_completed (update_score i d) = is_completed i"
  by (simp_all add: update_score_def Let_def)

lemma update_score_total_runs:
  "total_runs (update_score i d) = total_runs i + dc_runs_scored d + (if dc_is_extra d then 1 else 0)"
  by (simp add: update_score_def Let_def)

lemma update_score_wickets:
  "wickets (update_score i d) = wickets i + (if dc_is_wicket d then 1 else 0)"
  by (simp add: update_score_def Let_def)

lemma update_score_balls:
  "balls_bowled (update_score i d) =
     (if dc_is_extra d then balls_bowled i else if balls_bowled i + 1 = 6 then 0 else balls_bowled i + 1)"
  "overs_bowled (update_score i d) =
     (if dc_is_extra d then overs_bowled i else if balls_bowled i + 1 = 6 then overs_bowled i + 1 else overs_bowled i)"
  by (simp_all add: update_score_def Let_def)

lemma go_live_keeps [simp]:
  "m_id (go_live m) = m_id m"
  "team1_id (go_live m) = team1_id m"
  "team2_id (go_live m) = team2_id m"
  "winner_id (go_live m) = winner_id m"
  "status (go_live m) = COMPLETED \<longleftrightarrow> status m = COMPLETED"
  by (simp_all add: go_live_def)

lemma check_end_inning:
  "fst (check_end m i f) = i\<lparr>is_completed :=
      (is_completed i \<or> wickets i \<ge> 10 \<or> overs_bowled i \<ge> 20 \<or> (i_id i \<noteq> i_id f \<and> total_runs i > total_runs f))\<rparr>"
  by (auto simp: check_end_def Let_def)

lemma check_end_keeps [simp]:
  "i_id (fst (check_end m i f)) = i_id i"
  "match_id (fst (check_end m i f)) = match_id i"
  "batting_team_id (fst (check_end m i f)) = batting_team_id i"
  "bowling_team_id (fst (check_end m i f)) = bowling_team_id i"
  "total_runs (fst (check_end m i f)) = total_runs i"
  "wickets (fst (check_end m i f)) = wickets i"
  "overs_bowled (fst (check_end m i f)) = overs_bowled i"
  "balls_bowled (fst (check_end m i f)) = balls_bowled i"
  by (simp_all add: check_end_inning)

lemma check_end_match_keeps [simp]:
  "m_id (snd (check_end m i f)) = m_id m"
  "team1_id (snd (check_end m i f)) = team1_id m"
  "team2_id (snd (check_end m i f)) = team2_id m"
  by (simp_all add: check_end_def Let_def)

lemma check_end_chase:
  assumes "i_id i \<noteq> i_id f" and "total_runs i > total_runs f"
  shows "check_end m i f =
    (i\<lparr>is_completed := True\<rparr>, m\<lparr>winner_id := Some (batting_team_id i), status := COMPLETED\<rparr>)"
  using assms by (simp add: check_end_def Let_def)

lemma check_end_natural:
  assumes "i_id i \<noteq> i_id f" and "wickets i \<ge> 10 \<or> overs_bowled i \<ge> 20"
    and "winner_id m = None" and "total_runs i \<le> total_runs f"
  shows "check_end m i f =
    (i\<lparr>is_completed := True\<rparr>,
     (if total_runs f > total_runs i then m\<lparr>winner_id := Some (bowling_team_id i)\<rparr> else m)
       \<lparr>status := COMPLETED\<rparr>)"
  using assms by (auto simp: check_end_def Let_def not_int_def)

lemma check_end_completed:
  assumes "status m \<noteq> COMPLETED" and "status (snd (check_end m i f)) = COMPLETED"
  shows "i_id i \<noteq> i_id f \<and> is_completed (fst (check_end m i f))"
  using assms by (auto simp: check_end_def Let_def split: if_splits)

lemma check_end_winner:
  assumes "winner_id m = None" and "status (snd (check_end m i f)) \<noteq> COMPLETED"
  shows "winner_id (snd (check_end m i f)) = None"
  using assms by (auto simp: check_end_def Let_def split: if_splits)

subsection \<open>An accepted delivery\<close>

text \<open>
  What is known when \<open>record_delivery\<close> returns a delivery: the checks it passed and the
  database it committed. The second form holds when the inning ids are distinct, and
  states the sorted innings before and after the delivery.
\<close>

lemma record_delivery_SomeE:
  assumes "record_delivery db mid d = (Inr (Some dl), db')"
  obtains inning match first rest where
    "get_inning db (dc_inning_id d) = Some inning"
    "match_id inning = mid"
    "get_match_by_id db mid = Some match"
    "status match \<noteq> COMPLETED"
    "\<not> is_completed inning"
    "sort_key i_id (innings_of (put_inning (update_score inning d) (innings db)) (m_id match)) = first # rest"
    "db' = db\<lparr>matches := put_match (snd (check_end (go_live match) (update_score inning d) first)) (matches db),
              innings := put_inning (fst (check_end (go_live match) (update_score inning d) first)) (innings db),
              deliveries := deliveries db @ [dl],
              next_delivery_id := next_delivery_id db + 1\<rparr>"
proof -
  from assms obtain inning where gi: "get_inning db (dc_inning_id d) = Some inning"
    by (cases "get_inning db (dc_inning_id d)") (simp_all add: record_delivery_def)
  from assms gi have mi: "match_id inning = mid"
    by (auto simp: record_delivery_def split: if_splits)
  from assms gi mi obtain match where gm: "get_match_by_id db mid = Some match"
    by (cases "get_match_by_id db mid") (simp_all add: record_delivery_def)
  from assms gi mi gm have st: "status match \<noteq> COMPLETED" "\<not> is_completed inning"
    by (auto simp: record_delivery_def split: if_splits)
  let ?rows = "sort_key i_id (innings_of (put_inning (update_score inning d) (innings db)) (m_id match))"
  from assms gi mi gm st obtain first rest where fr: "?rows = first # rest"
    by (cases ?rows) (simp_all add: record_delivery_def Let_def)
  from assms gi mi gm st fr have
    "db' = db\<lparr>matches := put_match (snd (check_end (go_live match) (update_score inning d) first)) (matches db),
              innings := put_inning (fst (check_end (go_live match) (update_score inning d) first)) (innings db),
              deliveries := deliveries db @ [dl],
              next_delivery_id := next_delivery_id db + 1\<rparr>"
    by (auto simp: record_delivery_def Let_def split_beta)
  with gi mi gm st fr show ?thesis
    by (rule that)
qed

lemma record_delivery_okE:
  assumes ok: "record_delivery db mid d = (Inr (Some dl), db')"
    and pk: "distinct (map i_id (innings db))"
  obtains inning match first rest inning' match' where
    "get_inning db (dc_inning_id d) = Some inning"
    "match_id inning = mid"
    "get_match_by_id db mid = Some match"
    "m_id match = mid"
    "status match \<noteq> COMPLETED"
    "\<not> is_completed inning"
    "all_innings db mid = first # rest"
    "check_end (go_live match) (update_score inning d)
       (if i_id first = i_id inning then update_score inning d else first) = (inning', match')"
    "innings db' = put_inning inning' (innings db)"
    "matches db' = put_match match' (matches db)"
    "deliveries db' = deliveries db @ [dl]"
    "next_inning_id db' = next_inning_id db"
    "next_match_id db' = next_match_id db"
    "get_inning db' (dc_inning_id d) = Some inning'"
    "get_match_by_id db' mid = Some match'"
    "all_innings db' mid = put_inning inning' (first # rest)"
proof -
  from ok obtain inning match f0 r0 where
    a: "get_inning db (dc_inning_id d) = Some inning" "match_id inning = mid"
       "get_match_by_id db mid = Some match" "status match \<noteq> COMPLETED" "\<not> is_completed inning"
    and srt: "sort_key i_id (innings_of (put_inning (update_score inning d) (innings db)) (m_id match)) = f0 # r0"
    and db': "db' = db\<lparr>matches := put_match (snd (check_end (go_live match) (update_score inning d) f0)) (matches db),
              innings := put_inning (fst (check_end (go_live match) (update_score inning d) f0)) (innings db),
              deliveries := deliveries db @ [dl],
              next_delivery_id := next_delivery_id db + 1\<rparr>"
    by (rule record_delivery_SomeE)
  have idk: "i_id inning = dc_inning_id d" and mm: "m_id match = mid"
    using a(1,3) by (auto simp: get_inning_def get_match_by_id_def find_Some_iff)
  define sc where "sc = update_score inning d"
  have f1: "find (\<lambda>i. i_id i = i_id sc) (innings db) = Some inning"
    using a(1) idk by (simp add: sc_def get_inning_def)
  have srt': "put_inning sc (all_innings db mid) = f0 # r0"
    using srt sorted_innings_put_inning [OF pk f1, of mid] mm
    by (simp add: sc_def all_innings_def)
  then obtain first rest where fr: "all_innings db mid = first # rest"
    by (cases "all_innings db mid") (auto simp: put_inning_def)
  with srt' have f0: "f0 = (if i_id first = i_id inning then sc else first)"
    by (auto simp: put_inning_def sc_def)
  define inning' where "inning' = fst (check_end (go_live match) sc f0)"
  define match' where "match' = snd (check_end (go_live match) sc f0)"
  have ce: "check_end (go_live match) sc f0 = (inning', match')"
    by (simp add: inning'_def match'_def)
  have dbi: "innings db' = put_inning inning' (innings db)"
    and dbm: "matches db' = put_match match' (matches db)"
    and dbd: "deliveries db' = deliveries db @ [dl]"
    and dbn: "next_inning_id db' = next_inning_id db" "next_match_id db' = next_match_id db"
    by (simp_all add: db' inning'_def match'_def go_live_def sc_def)
  have id': "i_id inning' = dc_inning_id d" and mid': "match_id inning' = match_id inning"
    by (simp_all add: inning'_def sc_def idk)
  have gi: "get_inning db' (dc_inning_id d) = Some inning'"
    using a(1) by (simp add: get_inning_def dbi find_put_inning id')
  have mid_m: "m_id match' = mid"
    by (simp add: match'_def go_live_def mm)
  have gm: "get_match_by_id db' mid = Some match'"
    using a(3) by (simp add: get_match_by_id_def dbm find_put_match mid_m)
  have f2: "find (\<lambda>i. i_id i = i_id inning') (innings db) = Some inning"
    using a(1) id' by (simp add: get_inning_def)
  have ai: "all_innings db' mid = put_inning inning' (first # rest)"
    using sorted_innings_put_inning [OF pk f2 mid', of mid] fr
    by (simp add: all_innings_def dbi)
  show ?thesis
    using that [OF a(1,2,3) mm a(4,5) fr _ dbi dbm dbd dbn gi gm ai] ce f0
    unfolding sc_def by blast
qed

lemma record_delivery_row:
  assumes "record_delivery db mid d = (Inr (Some dl), db')"
  shows "inning_id dl = dc_inning_id d" and "d_id dl = next_delivery_id db"
  using assms
  by (auto simp: record_delivery_def Let_def split_beta split: option.splits if_splits list.splits)

lemma record_delivery_get_inning:
  assumes ok: "record_delivery db mid d = (Inr (Some dl), db')"
    and "get_inning db k = Some a"
  shows "\<exists>c. get_inning db' k =
           Some (if k = dc_inning_id d then (update_score a d)\<lparr>is_completed := c\<rparr> else a)"
proof -
  from ok obtain inning match first rest where
    a: "get_inning db (dc_inning_id d) = Some inning"
    and db': "db' = db\<lparr>matches := put_match (snd (check_end (go_live match) (update_score inning d) first)) (matches db),
              innings := put_inning (fst (check_end (go_live match) (update_score inning d) first)) (innings db),
              deliveries := deliveries db @ [dl],
              next_delivery_id := next_delivery_id db + 1\<rparr>"
    by (rule record_delivery_SomeE)
  have idk: "i_id inning = dc_inning_id d"
    using a by (auto simp: get_inning_def find_Some_iff)
  show ?thesis
  proof (cases "k = dc_inning_id d")
    case True
    with a assms(2) have "a = inning" by simp
    then show ?thesis
      using True a by (auto simp: db' get_inning_def find_put_inning idk check_end_inning)
  next
    case False
    then show ?thesis
      using assms(2) by (simp add: db' get_inning_def find_put_inning idk)
  qed
qed

text \<open>Every other outcome leaves the database as it was.\<close>

lemma record_delivery_disj:
  "snd (record_delivery db mid d) = db \<or>
   (\<exists>dl. record_delivery db mid d = (Inr (Some dl), snd (record_delivery db mid d)))"
  by (simp add: record_delivery_def Let_def split_beta split: option.split list.split)

lemma record_delivery_cases:
  obtains (unchanged) "snd (record_delivery db mid d) = db"
  | (recorded) dl where "record_delivery db mid d = (Inr (Some dl), snd (record_delivery db mid d))"
  using record_delivery_disj [of db mid d] by blast

subsection \<open>An accepted toss\<close>

lemma update_match_toss_SomeE:
  assumes "update_match_toss db mid td = (Some m', db')"
  obtains m where
    "get_match_by_id db mid = Some m"
    "m_id m = mid"
    "innings_of (innings db) mid = []"
    "m' = m\<lparr>toss_winner_id := Some (td_toss_winner_id td), toss_decision := Some (td_decision td)\<rparr>"
    "db' = db\<lparr>matches := put_match m' (matches db),
              innings := innings db @
                [\<lparr>i_id = next_inning_id db, match_id = mid,
                  batting_team_id = (if td_decision td = BAT then td_toss_winner_id td
                     else if td_toss_winner_id td = team1_id m then team2_id m else team1_id m),
                  bowling_team_id = (if td_decision td = BAT
                     then (if td_toss_winner_id td = team1_id m then team2_id m else team1_id m)
                     else td_toss_winner_id td),
                  total_runs = 0, wickets = 0, overs_bowled = 0, balls_bowled = 0,
                  is_completed = False\<rparr>,
                 \<lparr>i_id = next_inning_id db + 1, match_id = mid,
                  batting_team_id = (if td_decision td = BAT
                     then (if td_toss_winner_id td = team1_id m then team2_id m else team1_id m)
                     else td_toss_winner_id td),
                  bowling_team_id = (if td_decision td = BAT then td_toss_winner_id td
                     else if td_toss_winner_id td = team1_id m then team2_id m else team1_id m),
                  total_runs = 0, wickets = 0, overs_bowled = 0, balls_bowled = 0,
                  is_completed = False\<rparr>],
              next_inning_id := next_inning_id db + 2\<rparr>"
proof -
  from assms obtain m where m: "get_match_by_id db mid = Some m"
    by (auto simp: update_match_toss_def split: option.splits)
  then have mm: "m_id m = mid"
    by (auto simp: get_match_by_id_def find_Some_iff)
  from assms m mm have e: "innings_of (innings db) mid = []"
    by (auto simp: update_match_toss_def split: if_splits)
  show ?thesis
    using assms m mm e
    by (intro that [of m]) (auto simp: update_match_toss_def Let_def)
qed

lemma update_match_toss_cases:
  obtains (unchanged) "snd (update_match_toss db mid td) = db"
  | (tossed) m' where "update_match_toss db mid td = (Some m', snd (update_match_toss db mid td))"
proof (cases "get_match_by_id db mid")
  case None
  then show ?thesis by (intro unchanged) (simp add: update_match_toss_def)
next
  case (Some m)
  show ?thesis
  proof (cases "innings_of (innings db) (m_id m) = []")
    case True
    with Some show ?thesis
      by (intro tossed [of "m\<lparr>toss_winner_id := Some (td_toss_winner_id td), toss_decision := Some (td_decision td)\<rparr>"])
         (simp add: update_match_toss_def Let_def)
  next
    case False
    with Some show ?thesis by (intro unchanged) (simp add: update_match_toss_def)
  qed
qed

section \<open>The invariants hold in every reachable state\<close>

subsection \<open>Keys\<close>

lemma keys_ok_deliver:
  assumes "keys_ok db"
  shows "keys_ok (snd (record_delivery db mid d))"
proof (cases rule: record_delivery_cases [of db mid d])
  case unchanged
  with assms show ?thesis by simp
next
  case (recorded dl)
  then obtain inning match first rest where
    db': "snd (record_delivery db mid d) = db\<lparr>matches := put_match (snd (check_end (go_live match) (update_score inning d) first)) (matches db),
              innings := put_inning (fst (check_end (go_live match) (update_score inning d) first)) (innings db),
              deliveries := deliveries db @ [dl],
              next_delivery_id := next_delivery_id db + 1\<rparr>"
    by (rule record_delivery_SomeE)
  have "\<forall>i\<in>set (put_inning b (innings db)). i_id i < next_inning_id db" for b
    using assms by (metis keys_ok_def map_i_id_put_inning image_iff list.set_map)
  with assms show ?thesis
    unfolding db' by (simp add: keys_ok_def map_i_id_put_inning)
qed

lemma keys_ok_toss:
  assumes "keys_ok db"
  shows "keys_ok (snd (update_match_toss db mid td))"
proof (cases rule: update_match_toss_cases [of db mid td])
  case unchanged
  with assms show ?thesis by simp
next
  case (tossed m')
  then show ?thesis
    using assms by (elim update_match_toss_SomeE) (auto simp: keys_ok_def)
qed

lemma reachable_keys_ok: "reachable db \<Longrightarrow> keys_ok db"
proof (induction rule: reachable.induct)
  case r_init
  show ?case by (simp add: keys_ok_def empty_db_def)
next
  case (r_create db mc t)
  then show ?case by (simp add: keys_ok_def create_match_def Let_def)
next
  case (r_toss db mid td)
  from r_toss.IH show ?case by (rule keys_ok_toss)
next
  case (r_deliver db mid d)
  from r_deliver.IH show ?case by (rule keys_ok_deliver)
qed

subsection \<open>Wickets\<close>

lemma wickets_ok_deliver:
  assumes "wickets_ok db"
  shows "wickets_ok (snd (record_delivery db mid d))"
proof (cases rule: record_delivery_cases [of db mid d])
  case unchanged
  with assms show ?thesis by simp
next
  case (recorded dl)
  then obtain inning match first rest where
    a: "get_inning db (dc_inning_id d) = Some inning" "\<not> is_completed inning"
    and db': "snd (record_delivery db mid d) = db\<lparr>matches := put_match (snd (check_end (go_live match) (update_score inning d) first)) (matches db),
              innings := put_inning (fst (check_end (go_live match) (update_score inning d) first)) (innings db),
              deliveries := deliveries db @ [dl],
              next_delivery_id := next_delivery_id db + 1\<rparr>"
    by (rule record_delivery_SomeE)
  from a(1) have "inning \<in> set (innings db)"
    by (auto simp: get_inning_def find_Some_iff)
  with assms a(2) have w: "0 \<le> wickets inning" "wickets inning < 10"
    by (auto simp: wickets_ok_def order.strict_iff_order)
  define i' where "i' = fst (check_end (go_live match) (update_score inning d) first)"
  have "0 \<le> wickets i' \<and> wickets i' \<le> 10 \<and> (wickets i' = 10 \<longrightarrow> is_completed i')"
    using w by (simp add: i'_def check_end_inning update_score_wickets)
  with assms show ?thesis
    unfolding db' i'_def [symmetric] by (auto simp: wickets_ok_def put_inning_def)
qed

lemma wickets_ok_toss:
  assumes "wickets_ok db"
  shows "wickets_ok (snd (update_match_toss db mid td))"
proof (cases rule: update_match_toss_cases [of db mid td])
  case unchanged
  with assms show ?thesis by simp
next
  case (tossed m')
  then show ?thesis
    using assms by (elim update_match_toss_SomeE) (auto simp: wickets_ok_def)
qed

lemma reachable_wickets_ok: "reachable db \<Longrightarrow> wickets_ok db"
proof (induction rule: reachable.induct)
  case r_init
  show ?case by (simp add: wickets_ok_def empty_db_def)
next
  case (r_create db mc t)
  then show ?case by (simp add: wickets_ok_def create_match_def Let_def)
next
  case (r_toss db mid td)
  from r_toss.IH show ?case by (rule wickets_ok_toss)
next
  case (r_deliver db mid d)
  from r_deliver.IH show ?case by (rule wickets_ok_deliver)
qed

subsection \<open>Winner\<close>

lemma winner_ok_deliver:
  assumes "winner_ok db"
  shows "winner_ok (snd (record_delivery db mid d))"
proof (cases rule: record_delivery_cases [of db mid d])
  case unchanged
  with assms show ?thesis by simp
next
  case (recorded dl)
  then obtain inning match first rest where
    a: "get_match_by_id db mid = Some match" "status match \<noteq> COMPLETED"
    and db': "snd (record_delivery db mid d) = db\<lparr>matches := put_match (snd (check_end (go_live match) (update_score inning d) first)) (matches db),
              innings := put_inning (fst (check_end (go_live match) (update_score inning d) first)) (innings db),
              deliveries := deliveries db @ [dl],
              next_delivery_id := next_delivery_id db + 1\<rparr>"
    by (rule record_delivery_SomeE)
  from a(1) have "match \<in> set (matches db)"
    by (auto simp: get_match_by_id_def find_Some_iff)
  with assms a(2) have w: "winner_id match = None"
    by (simp add: winner_ok_def)
  define m' where "m' = snd (check_end (go_live match) (update_score inning d) first)"
  have "status m' \<noteq> COMPLETED \<longrightarrow> winner_id m' = None"
    unfolding m'_def using w by (intro impI check_end_winner) simp_all
  with assms show ?thesis
    unfolding db' m'_def [symmetric] by (auto simp: winner_ok_def put_match_def)
qed

lemma winner_ok_toss:
  assumes "winner_ok db"
  shows "winner_ok (snd (update_match_toss db mid td))"
proof (cases rule: update_match_toss_cases [of db mid td])
  case unchanged
  with assms show ?thesis by simp
next
  case (tossed m')
  then obtain m where m: "get_match_by_id db mid = Some m"
    and m': "m' = m\<lparr>toss_winner_id := Some (td_toss_winner_id td), toss_decision := Some (td_decision td)\<rparr>"
    and ms: "matches (snd (update_match_toss db mid td)) = put_match m' (matches db)"
    by (elim update_match_toss_SomeE) simp
  from m have "m \<in> set (matches db)"
    by (auto simp: get_match_by_id_def find_Some_iff)
  with assms have "status m' \<noteq> COMPLETED \<longrightarrow> winner_id m' = None"
    by (simp add: winner_ok_def m')
  with assms show ?thesis
    by (auto simp: winner_ok_def ms put_match_def)
qed

lemma reachable_winner_ok: "reachable db \<Longrightarrow> winner_ok db"
proof (induction rule: reachable.induct)
  case r_init
  show ?case by (simp add: winner_ok_def empty_db_def)
next
  case (r_create db mc t)
  then show ?case by (simp add: winner_ok_def create_match_def Let_def)
next
  case (r_toss db mid td)
  from r_toss.IH show ?case by (rule winner_ok_toss)
next
  case (r_deliver db mid d)
  from r_deliver.IH show ?case by (rule winner_ok_deliver)
qed

subsection \<open>Two innings with the teams swapped\<close>

lemma paired_put_inning:
  assumes "paired rows"
    and "\<And>x. x \<in> set rows \<Longrightarrow> i_id x = i_id b \<Longrightarrow>
           batting_team_id b = batting_team_id x \<and> bowling_team_id b = bowling_team_id x"
  shows "paired (put_inning b rows)"
proof (cases rows)
  case Nil
  then show ?thesis by (simp add: paired_def put_inning_def)
next
  case (Cons i1 r1)
  show ?thesis
  proof (cases r1)
    case Nil
    with Cons assms(1) show ?thesis by (simp add: paired_def)
  next
    case (Cons i2 r2)
    with \<open>rows = i1 # r1\<close> assms(1) have r: "rows = [i1, i2]"
      by (cases r2) (simp_all add: paired_def)
    have "i_id i1 = i_id b \<Longrightarrow> batting_team_id b = batting_team_id i1 \<and> bowling_team_id b = bowling_team_id i1"
      and "i_id i2 = i_id b \<Longrightarrow> batting_team_id b = batting_team_id i2 \<and> bowling_team_id b = bowling_team_id i2"
      using assms(2) [of i1] assms(2) [of i2] r by simp_all
    with assms(1) show ?thesis
      unfolding r by (simp add: paired_def put_inning_def)
  qed
qed

lemma pairs_ok_deliver:
  assumes "pairs_ok db" and "keys_ok db"
  shows "pairs_ok (snd (record_delivery db mid d))"
proof (cases rule: record_delivery_cases [of db mid d])
  case unchanged
  with assms show ?thesis by simp
next
  case (recorded dl)
  from assms(2) have pk: "distinct (map i_id (innings db))"
    by (simp add: keys_ok_def)
  from recorded pk obtain inning match first rest inning' match' where
    gi: "get_inning db (dc_inning_id d) = Some inning"
    and ce: "check_end (go_live match) (update_score inning d)
       (if i_id first = i_id inning then update_score inning d else first) = (inning', match')"
    and dbi: "innings (snd (record_delivery db mid d)) = put_inning inning' (innings db)"
    by (rule record_delivery_okE)
  from ce have keep: "i_id inning' = i_id inning" "match_id inning' = match_id inning"
    "batting_team_id inning' = batting_team_id inning" "bowling_team_id inning' = bowling_team_id inning"
    by (metis check_end_keeps(1) update_score_keeps(1) fst_conv,
        metis check_end_keeps(2) update_score_keeps(2) fst_conv,
        metis check_end_keeps(3) update_score_keeps(3) fst_conv,
        metis check_end_keeps(4) update_score_keeps(4) fst_conv)
  have idk: "i_id inning = dc_inning_id d"
    using gi by (auto simp: get_inning_def find_Some_iff)
  have f: "find (\<lambda>i. i_id i = i_id inning') (innings db) = Some inning"
    using gi by (simp add: get_inning_def keep idk)
  show ?thesis
    unfolding pairs_ok_def
  proof
    fix k
    have "innings_of (put_inning inning' (innings db)) k = put_inning inning' (innings_of (innings db) k)"
      using pk f keep(2) by (rule innings_of_put_inning)
    moreover have "paired (put_inning inning' (innings_of (innings db) k))"
    proof (rule paired_put_inning)
      show "paired (innings_of (innings db) k)"
        using assms(1) by (simp add: pairs_ok_def)
    next
      fix x assume "x \<in> set (innings_of (innings db) k)" and "i_id x = i_id inning'"
      then have "x = inning"
        using find_id_unique [OF pk f] by (simp add: innings_of_def)
      with keep show "batting_team_id inning' = batting_team_id x \<and> bowling_team_id inning' = bowling_team_id x"
        by simp
    qed
    ultimately show "paired (innings_of (innings (snd (record_delivery db mid d))) k)"
      by (simp add: dbi)
  qed
qed

lemma pairs_ok_toss:
  assumes "pairs_ok db"
  shows "pairs_ok (snd (update_match_toss db mid td))"
proof (cases rule: update_match_toss_cases [of db mid td])
  case unchanged
  with assms show ?thesis by simp
next
  case (tossed m')
  then obtain i1 i2 where e: "innings_of (innings db) mid = []"
    and i: "innings (snd (update_match_toss db mid td)) = innings db @ [i1, i2]"
    and p: "match_id i1 = mid" "match_id i2 = mid" "i_id i1 < i_id i2"
      "batting_team_id i1 = bowling_team_id i2" "bowling_team_id i1 = batting_team_id i2"
    by (elim update_match_toss_SomeE) simp
  show ?thesis
    unfolding pairs_ok_def
  proof
    fix k
    show "paired (innings_of (innings (snd (update_match_toss db mid td))) k)"
    proof (cases "k = mid")
      case True
      with e p show ?thesis by (simp add: i innings_of_def paired_def)
    next
      case False
      with p assms show ?thesis by (simp add: i innings_of_def pairs_ok_def)
    qed
  qed
qed

lemma reachable_pairs_ok: "reachable db \<Longrightarrow> pairs_ok db"
proof (induction rule: reachable.induct)
  case r_init
  show ?case by (simp add: pairs_ok_def paired_def innings_of_def empty_db_def)
next
  case (r_create db mc t)
  then show ?case by (simp add: pairs_ok_def create_match_def Let_def)
next
  case (r_toss db mid td)
  from r_toss.IH show ?case by (rule pairs_ok_toss)
next
  case (r_deliver db mid d)
  from r_deliver.IH reachable_keys_ok [OF r_deliver.hyps] show ?case by (rule pairs_ok_deliver)
qed

lemma paired_sorted:
  assumes "paired rows" and "sort_key i_id rows = first # rest"
  shows "\<exists>i2. rows = [first, i2] \<and> rest = [i2] \<and> i_id first < i_id i2
          \<and> batting_team_id first = bowling_team_id i2 \<and> bowling_team_id first = batting_team_id i2"
proof (cases rows)
  case Nil
  with assms(2) show ?thesis by simp
next
  case (Cons i1 r1)
  show ?thesis
  proof (cases r1)
    case Nil
    with Cons assms(1) show ?thesis by (simp add: paired_def)
  next
    case (Cons i2 r2)
    with \<open>rows = i1 # r1\<close> assms(1) have r: "rows = [i1, i2]"
      by (cases r2) (simp_all add: paired_def)
    with assms show ?thesis
      by (auto simp: paired_def)
  qed
qed

subsection \<open>Innings played in order\<close>

lemma in_order_reachable: "reachable_in_order db \<Longrightarrow> reachable db"
  by (induction rule: reachable_in_order.induct) (auto intro: reachable.intros)

lemma refs_ok_deliver:
  assumes "refs_ok db" and "keys_ok db"
  shows "refs_ok (snd (record_delivery db mid d))"
proof (cases rule: record_delivery_cases [of db mid d])
  case unchanged
  with assms show ?thesis by simp
next
  case (recorded dl)
  from assms(2) have pk: "distinct (map i_id (innings db))"
    by (simp add: keys_ok_def)
  from recorded pk obtain inning where
    gi: "get_inning db (dc_inning_id d) = Some inning"
    and dbd: "deliveries (snd (record_delivery db mid d)) = deliveries db @ [dl]"
    and dbn: "next_inning_id (snd (record_delivery db mid d)) = next_inning_id db"
    by (rule record_delivery_okE)
  from gi have "inning \<in> set (innings db)" "i_id inning = dc_inning_id d"
    by (auto simp: get_inning_def find_Some_iff)
  with assms(2) have "dc_inning_id d < next_inning_id db"
    by (auto simp: keys_ok_def)
  with assms(1) record_delivery_row(1) [OF recorded] show ?thesis
    by (auto simp: refs_ok_def dbd dbn)
qed

lemma refs_ok_toss:
  assumes "refs_ok db"
  shows "refs_ok (snd (update_match_toss db mid td))"
proof (cases rule: update_match_toss_cases [of db mid td])
  case unchanged
  with assms show ?thesis by simp
next
  case (tossed m')
  then show ?thesis
    using assms by (elim update_match_toss_SomeE) (auto simp: refs_ok_def)
qed

lemma waits_ok_deliver:
  assumes w: "waits_ok db" and ks: "keys_ok db" and ord: "in_order db mid d"
  shows "waits_ok (snd (record_delivery db mid d))"
proof (cases rule: record_delivery_cases [of db mid d])
  case unchanged
  with w show ?thesis by simp
next
  case (recorded dl)
  let ?db' = "snd (record_delivery db mid d)"
  from ks have pk: "distinct (map i_id (innings db))"
    by (simp add: keys_ok_def)
  from recorded pk obtain inning match f0 r0 inning' match' where
    gi: "get_inning db (dc_inning_id d) = Some inning"
    and mi: "match_id inning = mid"
    and nc: "\<not> is_completed inning"
    and fr0: "all_innings db mid = f0 # r0"
    and ce: "check_end (go_live match) (update_score inning d)
       (if i_id f0 = i_id inning then update_score inning d else f0) = (inning', match')"
    and dbi: "innings ?db' = put_inning inning' (innings db)"
    and dbd: "deliveries ?db' = deliveries db @ [dl]"
    by (rule record_delivery_okE)
  have idk: "i_id inning = dc_inning_id d" and mem: "inning \<in> set (innings db)"
    using gi by (auto simp: get_inning_def find_Some_iff)
  have keep: "i_id inning' = i_id inning" "match_id inning' = match_id inning"
    using ce by (metis check_end_keeps(1) update_score_keeps(1) fst_conv,
                 metis check_end_keeps(2) update_score_keeps(2) fst_conv)
  have f: "find (\<lambda>i. i_id i = i_id inning') (innings db) = Some inning"
    using gi by (simp add: get_inning_def keep idk)
  have ai: "all_innings ?db' k = put_inning inning' (all_innings db k)" for k
    using sorted_innings_put_inning [OF pk f keep(2), of k] by (simp add: all_innings_def dbi)
  have uniq: "x = inning" if "x \<in> set (innings db)" "i_id x = i_id inning" for x
    using find_id_unique [OF pk f that(1)] that(2) keep by simp
  show ?thesis
    unfolding waits_ok_def
  proof (intro ballI allI impI)
    fix dl' k first rest i
    assume dl': "dl' \<in> set (deliveries ?db')"
      and fr: "all_innings ?db' k = first # rest"
      and i: "i \<in> set rest"
      and ref: "inning_id dl' = i_id i"
    from fr ai [of k] obtain f1 r1 where fr1: "all_innings db k = f1 # r1"
      and first: "first = (if i_id f1 = i_id inning' then inning' else f1)"
      and rest: "rest = put_inning inning' r1"
      by (cases "all_innings db k") (auto simp: put_inning_def)
    from i rest obtain i0 where i0: "i0 \<in> set r1" "i_id i0 = i_id i"
      by (auto simp: put_inning_def split: if_splits)
    note facts = all_innings_facts [OF pk fr1]
    have f1_done: "is_completed f1"
    proof (cases "dl' = dl")
      case True
      with ref i0 record_delivery_row(1) [OF recorded] have "i_id i0 = i_id inning"
        by (simp add: idk)
      with i0(1) facts(2) have i0_eq: "i0 = inning"
        by (intro uniq) auto
      with i0(1) facts(4) mi have "k = mid" by auto
      with fr0 fr1 have "f1 = f0" by simp
      with ord fr0 have "dc_inning_id d = i_id f1 \<or> is_completed f1"
        by (simp add: in_order_def)
      moreover have "dc_inning_id d \<noteq> i_id f1"
      proof
        assume "dc_inning_id d = i_id f1"
        with facts(1) have "f1 = inning"
          by (intro uniq) (simp_all add: idk)
        with i0_eq i0(1) facts(3) show False by simp
      qed
      ultimately show ?thesis by simp
    next
      case False
      with dl' have "dl' \<in> set (deliveries db)"
        by (simp add: dbd)
      with w fr1 i0 ref show ?thesis
        unfolding waits_ok_def by metis
    qed
    have "i_id f1 \<noteq> i_id inning'"
    proof
      assume "i_id f1 = i_id inning'"
      with facts(1) have "f1 = inning"
        by (intro uniq) (simp_all add: keep)
      with f1_done nc show False by simp
    qed
    with first f1_done show "is_completed first" by simp
  qed
qed

lemma waits_ok_toss:
  assumes w: "waits_ok db" and r: "refs_ok db"
  shows "waits_ok (snd (update_match_toss db mid td))"
proof (cases rule: update_match_toss_cases [of db mid td])
  case unchanged
  with w show ?thesis by simp
next
  case (tossed m')
  let ?db' = "snd (update_match_toss db mid td)"
  from tossed obtain i1 i2 where e: "innings_of (innings db) mid = []"
    and i: "innings ?db' = innings db @ [i1, i2]"
    and d: "deliveries ?db' = deliveries db"
    and p: "match_id i1 = mid" "match_id i2 = mid" "i_id i1 = next_inning_id db"
      "i_id i2 = next_inning_id db + 1"
    by (elim update_match_toss_SomeE) simp
  have same: "all_innings ?db' k = all_innings db k" if "k \<noteq> mid" for k
    using that p by (simp add: all_innings_def innings_of_def i)
  have new: "all_innings ?db' mid = [i1, i2]"
    using e p by (simp add: all_innings_def innings_of_def i)
  show ?thesis
    unfolding waits_ok_def
  proof (intro ballI allI impI)
    fix dl k first rest j
    assume dl: "dl \<in> set (deliveries ?db')"
      and fr: "all_innings ?db' k = first # rest"
      and j: "j \<in> set rest"
      and ref: "inning_id dl = i_id j"
    from dl d have old: "dl \<in> set (deliveries db)" by simp
    show "is_completed first"
    proof (cases "k = mid")
      case True
      with fr new j have "j = i2" by auto
      with ref p have "inning_id dl = next_inning_id db + 1" by simp
      with r old show ?thesis by (auto simp: refs_ok_def)
    next
      case False
      with fr same have "all_innings db k = first # rest" by simp
      with w old j ref show ?thesis
        unfolding waits_ok_def by metis
    qed
  qed
qed

lemma in_order_invariants:
  "reachable_in_order db \<Longrightarrow> waits_ok db \<and> refs_ok db"
proof (induction rule: reachable_in_order.induct)
  case o_init
  show ?case by (simp add: waits_ok_def refs_ok_def empty_db_def)
next
  case (o_create db mc t)
  then show ?case
    by (simp add: waits_ok_def refs_ok_def all_innings_def create_match_def Let_def)
next
  case (o_toss db mid td)
  then show ?case
    by (simp add: waits_ok_toss refs_ok_toss)
next
  case (o_deliver db mid d)
  from o_deliver.hyps(1) have "keys_ok db"
    by (intro reachable_keys_ok in_order_reachable)
  with o_deliver show ?case
    by (simp add: waits_ok_deliver refs_ok_deliver)
qed

section \<open>Sequences of deliveries\<close>

lemma record_all_total_runs:
  assumes "record_all db mid ds = Some db'" and "get_inning db k = Some a"
  shows "\<exists>a'. get_inning db' k = Some a' \<and>
           total_runs a' = total_runs a + sum_list (map runs_added (filter (\<lambda>d. dc_inning_id d = k) ds))"
  using assms
proof (induction ds arbitrary: db a)
  case Nil
  then show ?case by simp
next
  case (Cons d ds)
  from Cons.prems(1) obtain dl db1 where
    ok: "record_delivery db mid d = (Inr (Some dl), db1)" and rest: "record_all db1 mid ds = Some db'"
    by (auto split: prod.splits sum.splits option.splits)
  from record_delivery_get_inning [OF ok Cons.prems(2)] obtain c where
    g1: "get_inning db1 k = Some (if k = dc_inning_id d then (update_score a d)\<lparr>is_completed := c\<rparr> else a)"
    by blast
  from Cons.IH [OF rest g1] show ?case
    by (auto simp: update_score_total_runs runs_added_def)
qed

lemma record_all_balls:
  assumes "record_all db mid ds = Some db'" and "get_inning db k = Some a"
    and "0 \<le> balls_bowled a" and "balls_bowled a \<le> 5"
  shows "\<exists>a'. get_inning db' k = Some a' \<and> 0 \<le> balls_bowled a' \<and> balls_bowled a' \<le> 5 \<and>
     6 * overs_bowled a' + balls_bowled a' = 6 * overs_bowled a + balls_bowled a + legal_balls k ds"
  using assms
proof (induction ds arbitrary: db a)
  case Nil
  then show ?case by (simp add: legal_balls_def)
next
  case (Cons d ds)
  from Cons.prems(1) obtain dl db1 where
    ok: "record_delivery db mid d = (Inr (Some dl), db1)" and rest: "record_all db1 mid ds = Some db'"
    by (auto split: prod.splits sum.splits option.splits)
  from record_delivery_get_inning [OF ok Cons.prems(2)] obtain c where
    g1: "get_inning db1 k = Some (if k = dc_inning_id d then (update_score a d)\<lparr>is_completed := c\<rparr> else a)"
    by blast
  let ?a1 = "if k = dc_inning_id d then (update_score a d)\<lparr>is_completed := c\<rparr> else a"
  have b1: "0 \<le> balls_bowled ?a1" "balls_bowled ?a1 \<le> 5"
    using Cons.prems(3,4) by (auto simp: update_score_balls)
  have step: "6 * overs_bowled ?a1 + balls_bowled ?a1 =
      6 * overs_bowled a + balls_bowled a + (if k = dc_inning_id d \<and> \<not> dc_is_extra d then 1 else 0)"
    by (auto simp: update_score_balls)
  from Cons.IH [OF rest g1 b1] obtain a' where
    "get_inning db' k = Some a'" "0 \<le> balls_bowled a'" "balls_bowled a' \<le> 5"
    "6 * overs_bowled a' + balls_bowled a' = 6 * overs_bowled ?a1 + balls_bowled ?a1 + legal_balls k ds"
    by blast
  with step show ?case
    by (auto simp: legal_balls_def)
qed

lemma reachable_play:
  "reachable db \<Longrightarrow> reachable (play db mid ds)"
  unfolding play_def
  by (induction ds arbitrary: db) (simp_all add: r_deliver)

lemma reachable_play_in_order:
  "reachable_in_order db \<Longrightarrow> play_in_order db mid ds = Some db' \<Longrightarrow> reachable_in_order db'"
  by (induction ds arbitrary: db) (auto intro: o_deliver split: if_splits)

section \<open>The example states, evaluated\<close>

lemmas model_defs = record_delivery_def update_match_toss_def create_match_def get_inning_def
  get_match_by_id_def update_score_def check_end_def go_live_def put_inning_def put_match_def
  innings_of_def all_innings_def not_int_def play_def Let_def

lemmas example_defs = ex_fixture_def ex_created_def ex_tossed_def ball_def empty_db_def
  ex_allout_def ex_nine_down_def ex_chase_def

lemma reachable_ex_tossed: "reachable ex_tossed"
  unfolding ex_tossed_def ex_created_def by (intro r_toss r_create r_init)

lemma reachable_in_order_ex_tossed: "reachable_in_order ex_tossed"
  unfolding ex_tossed_def ex_created_def by (intro o_toss o_create o_init)

lemma ex_tossed_eq: "ex_tossed = \<lparr>matches =
     [\<lparr>m_id = 1, match_date = 0, venue = None, status = SCHEDULED,
         tournament_id = None, team1_id = 1, team2_id = 2,
         toss_winner_id = Some 1, toss_decision = Some BAT, winner_id = None\<rparr>],
    innings = [\<lparr>i_id = 1, match_id = 1, batting_team_id = 1, bowling_team_id = 2,
         total_runs = 0, wickets = 0, overs_bowled = 0, balls_bowled = 0, is_completed = False\<rparr>,
       \<lparr>i_id = 2, match_id = 1, batting_team_id = 2, bowling_team_id = 1,
         total_runs = 0, wickets = 0, overs_bowled = 0, balls_bowled = 0, is_completed = False\<rparr>],
    deliveries = [], next_match_id = 2, next_inning_id = 3, next_delivery_id = 1\<rparr>"
  by (simp add: model_defs ex_tossed_def ex_created_def ex_fixture_def empty_db_def)

lemma ex_allout_tables:
  "matches ex_allout = [\<lparr>m_id = 1, match_date = 0, venue = None, status = LIVE,
         tournament_id = None, team1_id = 1, team2_id = 2,
         toss_winner_id = Some 1, toss_decision = Some BAT, winner_id = None\<rparr>]"
  "innings ex_allout = [\<lparr>i_id = 1, match_id = 1, batting_team_id = 1, bowling_team_id = 2,
         total_runs = 0, wickets = 10, overs_bowled = 1, balls_bowled = 4, is_completed = True\<rparr>,
       \<lparr>i_id = 2, match_id = 1, batting_team_id = 2, bowling_team_id = 1,
         total_runs = 0, wickets = 0, overs_bowled = 0, balls_bowled = 0, is_completed = False\<rparr>]"
  unfolding ex_allout_def ex_tossed_eq
  by (simp_all add: model_defs ball_def eval_nat_numeral)

lemma ex_nine_down_tables:
  "matches ex_nine_down = [\<lparr>m_id = 1, match_date = 0, venue = None, status = LIVE,
         tournament_id = None, team1_id = 1, team2_id = 2,
         toss_winner_id = Some 1, toss_decision = Some BAT, winner_id = None\<rparr>]"
  "innings ex_nine_down = [\<lparr>i_id = 1, match_id = 1, batting_team_id = 1, bowling_team_id = 2,
           total_runs = 4, wickets = 0, overs_bowled = 0, balls_bowled = 1, is_completed = False\<rparr>,
        \<lparr>i_id = 2, match_id = 1, batting_team_id = 2, bowling_team_id = 1,
           total_runs = 0, wickets = 9, overs_bowled = 1, balls_bowled = 3, is_completed = False\<rparr>]"
  "next_delivery_id ex_nine_down = 11"
  unfolding ex_nine_down_def ex_tossed_eq
  by (simp_all add: model_defs ball_def eval_nat_numeral)

lemma ex_scored_ok: "record_all ex_tossed 1 ex_over = Some ex_scored"
  unfolding ex_scored_def ex_over_def ex_tossed_eq
  by (simp add: model_defs ball_def)

lemma ex_second_over_ok: "record_all ex_tossed 1 ex_eight_balls = Some ex_second_over"
  unfolding ex_second_over_def ex_eight_balls_def ex_tossed_eq
  by (simp add: model_defs ball_def)

lemma ex_early_win_ok:
  "record_delivery ex_tossed 1 (ball 2 1 False False) =
     (Inr (Some \<lparr>d_id = 1, inning_id = 2, batsman_id = 1, bowler_id = 2, runs_scored = 1,
         is_extra = False, extra_type = None, is_wicket = False, wicket_type = None\<rparr>), ex_early_win)"
  unfolding ex_early_win_def ex_tossed_eq
  by (simp add: model_defs ball_def)

lemma ex_early_win_tables:
  "matches ex_early_win = [\<lparr>m_id = 1, match_date = 0, venue = None, status = COMPLETED,
         tournament_id = None, team1_id = 1, team2_id = 2,
         toss_winner_id = Some 1, toss_decision = Some BAT, winner_id = Some 2\<rparr>]"
  "innings ex_early_win = [\<lparr>i_id = 1, match_id = 1, batting_team_id = 1, bowling_team_id = 2,
         total_runs = 0, wickets = 0, overs_bowled = 0, balls_bowled = 0, is_completed = False\<rparr>,
       \<lparr>i_id = 2, match_id = 1, batting_team_id = 2, bowling_team_id = 1,
         total_runs = 1, wickets = 0, overs_bowled = 0, balls_bowled = 1, is_completed = True\<rparr>]"
  unfolding ex_early_win_def ex_tossed_eq
  by (simp_all add: model_defs ball_def)

lemma ex_second_started_in_order:
  "play_in_order ex_tossed 1 (replicate 10 (ball 1 0 True False) @ [ball 2 0 False False])
     = Some ex_second_started"
  unfolding ex_second_started_def ex_allout_def ex_tossed_eq
  by (simp add: model_defs in_order_def ball_def eval_nat_numeral)

lemma ex_second_started_tables:
  "innings ex_second_started = [\<lparr>i_id = 1, match_id = 1, batting_team_id = 1, bowling_team_id = 2,
         total_runs = 0, wickets = 10, overs_bowled = 1, balls_bowled = 4, is_completed = True\<rparr>,
       \<lparr>i_id = 2, match_id = 1, batting_team_id = 2, bowling_team_id = 1,
         total_runs = 0, wickets = 0, overs_bowled = 0, balls_bowled = 1, is_completed = False\<rparr>]"
  "map inning_id (deliveries ex_second_started) = [1, 1, 1, 1, 1, 1, 1, 1, 1, 1, 2]"
  "last (deliveries ex_second_started) = \<lparr>d_id = 11, inning_id = 2, batsman_id = 1, bowler_id = 2,
       runs_scored = 0, is_extra = False, extra_type = None, is_wicket = False, wicket_type = None\<rparr>"
  unfolding ex_second_started_def ex_allout_def ex_tossed_eq
  by (simp_all add: model_defs ball_def eval_nat_numeral)

section \<open>The claims\<close>

subsection \<open>C1: a successful chase ends the match\<close>

text \<open>
  C1. A delivery is recorded for an inning that is not the first of its match by id. If
  after it that inning's \<open>total_runs\<close> exceeds the first inning's, then the inning is
  completed, the winner is its batting team and the match is \<open>COMPLETED\<close>. Nothing is
  assumed about wickets or overs. Inning ids are the primary key of their table.
\<close>

theorem chase_completes_match:
  assumes pk: "distinct (map i_id (innings db))"
    and ok: "record_delivery db mid d = (Inr (Some dl), db')"
    and fr: "all_innings db' mid = first # rest"
    and gi: "get_inning db' (dc_inning_id d) = Some inning'"
    and snd_inning: "i_id inning' \<noteq> i_id first"
    and ahead: "total_runs inning' > total_runs first"
    and gm: "get_match_by_id db' mid = Some match'"
  shows "is_completed inning' \<and> winner_id match' = Some (batting_team_id inning')
          \<and> status match' = COMPLETED"
proof -
  from ok pk obtain inning match f0 r0 i' m' where
    ce: "check_end (go_live match) (update_score inning d)
       (if i_id f0 = i_id inning then update_score inning d else f0) = (i', m')"
    and gi': "get_inning db' (dc_inning_id d) = Some i'"
    and gm': "get_match_by_id db' mid = Some m'"
    and ai: "all_innings db' mid = put_inning i' (f0 # r0)"
    by (rule record_delivery_okE)
  from gi gi' gm gm' have eq: "i' = inning'" "m' = match'" by simp_all
  have i'_id: "i_id i' = i_id inning" and i'_runs: "total_runs i' = total_runs (update_score inning d)"
    using ce by (metis check_end_keeps(1) update_score_keeps(1) fst_conv, metis check_end_keeps(5) fst_conv)
  from ai fr have "first = (if i_id f0 = i_id i' then i' else f0)"
    by (simp add: put_inning_def)
  with snd_inning eq have f0: "first = f0" "i_id f0 \<noteq> i_id inning"
    using i'_id by (auto split: if_splits)
  from ce f0 have "check_end (go_live match) (update_score inning d) first = (inning', match')"
    by (simp add: eq)
  moreover have "check_end (go_live match) (update_score inning d) first =
     ((update_score inning d)\<lparr>is_completed := True\<rparr>,
      (go_live match)\<lparr>winner_id := Some (batting_team_id (update_score inning d)), status := COMPLETED\<rparr>)"
    using f0 ahead i'_runs eq by (intro check_end_chase) simp_all
  ultimately show ?thesis by auto
qed

text \<open>The chase of the specification: 152 against 150 after 15.3 overs, two wickets down.\<close>

theorem chase_completes_match_witness:
  "map_option is_completed (get_inning ex_chase_won 2) = Some True
   \<and> map_option wickets (get_inning ex_chase_won 2) = Some 2
   \<and> map_option overs_bowled (get_inning ex_chase_won 2) = Some 15
   \<and> map_option balls_bowled (get_inning ex_chase_won 2) = Some 3
   \<and> map_option winner_id (get_match_by_id ex_chase_won 1) = Some (Some 2)
   \<and> map_option status (get_match_by_id ex_chase_won 1) = Some COMPLETED"
proof -
  let ?first = "\<lparr>i_id = 1, match_id = 1, batting_team_id = 1, bowling_team_id = 2,
           total_runs = 150, wickets = 3, overs_bowled = 20, balls_bowled = 0, is_completed = True\<rparr>"
  let ?second = "\<lparr>i_id = 2, match_id = 1, batting_team_id = 2, bowling_team_id = 1,
           total_runs = 152, wickets = 2, overs_bowled = 15, balls_bowled = 3, is_completed = True\<rparr>"
  let ?match = "\<lparr>m_id = 1, match_date = 0, venue = None, status = COMPLETED,
         tournament_id = None, team1_id = 1, team2_id = 2,
         toss_winner_id = Some 1, toss_decision = Some BAT, winner_id = Some 2\<rparr>"
  have pk: "distinct (map i_id (innings ex_chase))"
    by (simp add: ex_chase_def)
  have ok: "record_delivery ex_chase 1 (ball 2 4 False False) =
      (Inr (Some \<lparr>d_id = 1, inning_id = 2, batsman_id = 1, bowler_id = 2, runs_scored = 4,
         is_extra = False, extra_type = None, is_wicket = False, wicket_type = None\<rparr>), ex_chase_won)"
    by (simp add: ex_chase_won_def model_defs ex_chase_def ball_def)
  have fr: "all_innings ex_chase_won 1 = ?first # [?second]"
    by (simp add: ex_chase_won_def model_defs ex_chase_def ball_def)
  have gi: "get_inning ex_chase_won (dc_inning_id (ball 2 4 False False)) = Some ?second"
    by (simp add: ex_chase_won_def model_defs ex_chase_def ball_def)
  have gm: "get_match_by_id ex_chase_won 1 = Some ?match"
    by (simp add: ex_chase_won_def model_defs ex_chase_def ball_def)
  have "is_completed ?second \<and> winner_id ?match = Some (batting_team_id ?second)
          \<and> status ?match = COMPLETED"
    by (rule chase_completes_match [OF pk ok fr gi _ _ gm]) simp_all
  with gi gm show ?thesis
    by (simp add: ball_def)
qed

subsection \<open>C2: the winner at the natural end of the second inning\<close>

text \<open>
  C2. In a reachable state a delivery brings the second-batted inning to ten wickets or
  twenty overs. Then the match is \<open>COMPLETED\<close> and the inning is completed; the second
  inning's bowling team is the first inning's batting team; it wins when the first inning
  has more runs, the second inning's batting team wins when that inning has more, and
  when the totals are equal no winner is set.
\<close>

theorem natural_completion_winner:
  assumes reach: "reachable db"
    and ok: "record_delivery db mid d = (Inr (Some dl), db')"
    and fr: "all_innings db' mid = first # rest"
    and gi: "get_inning db' (dc_inning_id d) = Some inning'"
    and snd_inning: "i_id inning' \<noteq> i_id first"
    and natural: "wickets inning' \<ge> 10 \<or> overs_bowled inning' \<ge> 20"
    and gm: "get_match_by_id db' mid = Some match'"
  shows "status match' = COMPLETED \<and> is_completed inning' \<and>
    batting_team_id first = bowling_team_id inning' \<and>
    (total_runs first > total_runs inning' \<longrightarrow> winner_id match' = Some (batting_team_id first)) \<and>
    (total_runs inning' > total_runs first \<longrightarrow> winner_id match' = Some (batting_team_id inning')) \<and>
    (total_runs inning' = total_runs first \<longrightarrow> winner_id match' = None)"
proof -
  from reach have pk: "distinct (map i_id (innings db))"
    using reachable_keys_ok by (simp add: keys_ok_def)
  from ok pk obtain inning match f0 r0 i' m' where
    g0: "get_inning db (dc_inning_id d) = Some inning"
    and mi: "match_id inning = mid"
    and m0: "get_match_by_id db mid = Some match"
    and st: "status match \<noteq> COMPLETED"
    and fr0: "all_innings db mid = f0 # r0"
    and ce: "check_end (go_live match) (update_score inning d)
       (if i_id f0 = i_id inning then update_score inning d else f0) = (i', m')"
    and gi': "get_inning db' (dc_inning_id d) = Some i'"
    and gm': "get_match_by_id db' mid = Some m'"
    and ai: "all_innings db' mid = put_inning i' (f0 # r0)"
    by (rule record_delivery_okE)
  from gi gi' gm gm' have eq: "i' = inning'" "m' = match'" by simp_all
  define sc where "sc = update_score inning d"
  have keep: "i_id i' = i_id inning" "total_runs i' = total_runs sc" "wickets i' = wickets sc"
    "overs_bowled i' = overs_bowled sc" "bowling_team_id i' = bowling_team_id inning"
    "batting_team_id i' = batting_team_id inning"
    using ce unfolding sc_def
    by (metis check_end_keeps(1) update_score_keeps(1) fst_conv,
        metis check_end_keeps(5) fst_conv, metis check_end_keeps(6) fst_conv,
        metis check_end_keeps(7) fst_conv,
        metis check_end_keeps(4) update_score_keeps(4) fst_conv,
        metis check_end_keeps(3) update_score_keeps(3) fst_conv)
  from ai fr have "first = (if i_id f0 = i_id i' then i' else f0)"
    by (simp add: put_inning_def)
  with snd_inning eq keep(1) have f0: "first = f0" "i_id f0 \<noteq> i_id inning"
    by (auto split: if_splits)
  from ce f0 have ce': "check_end (go_live match) sc first = (inning', match')"
    by (simp add: eq sc_def)
  have "match \<in> set (matches db)"
    using m0 by (auto simp: get_match_by_id_def find_Some_iff)
  with st reachable_winner_ok [OF reach] have "winner_id match = None"
    by (simp add: winner_ok_def)
  then have w0: "winner_id (go_live match) = None"
    by (simp add: go_live_def)
  have ne: "i_id sc \<noteq> i_id first"
    using f0 by (simp add: sc_def)
  have nat: "wickets sc \<ge> 10 \<or> overs_bowled sc \<ge> 20"
    using natural keep eq by simp
  have runs: "total_runs inning' = total_runs sc"
    using keep eq by simp
  have res: "status match' = COMPLETED \<and> is_completed inning' \<and>
    (total_runs first > total_runs sc \<longrightarrow> winner_id match' = Some (bowling_team_id sc)) \<and>
    (total_runs sc > total_runs first \<longrightarrow> winner_id match' = Some (batting_team_id sc)) \<and>
    (total_runs sc = total_runs first \<longrightarrow> winner_id match' = None)"
  proof (cases "total_runs sc > total_runs first")
    case True
    with ce' check_end_chase [OF ne True, of "go_live match"] show ?thesis by auto
  next
    case False
    then have le: "total_runs sc \<le> total_runs first" by simp
    from ce' check_end_natural [OF ne nat w0 le] w0 le show ?thesis by auto
  qed
  have "paired (innings_of (innings db) mid)"
    using reachable_pairs_ok [OF reach] by (simp add: pairs_ok_def)
  with fr0 f0 obtain i2 where two: "innings_of (innings db) mid = [first, i2]"
    and sw: "batting_team_id first = bowling_team_id i2"
    unfolding all_innings_def by (metis paired_sorted)
  have "inning \<in> set (innings_of (innings db) mid)"
    using g0 mi by (auto simp: get_inning_def find_Some_iff innings_of_def)
  with two f0 have "inning = i2" by auto
  with sw keep eq have teams: "batting_team_id first = bowling_team_id inning'" by simp
  have "bowling_team_id sc = bowling_team_id inning'" "batting_team_id sc = batting_team_id inning'"
    using keep eq by (simp_all add: sc_def)
  with res teams runs show ?thesis by simp
qed

theorem natural_completion_winner_witness:
  "map_option status (get_match_by_id ex_ten_down 1) = Some COMPLETED
   \<and> map_option winner_id (get_match_by_id ex_ten_down 1) = Some (Some 1)
   \<and> map total_runs (all_innings ex_ten_down 1) = [4, 0]
   \<and> map wickets (all_innings ex_ten_down 1) = [0, 10]
   \<and> map batting_team_id (all_innings ex_ten_down 1) = [1, 2]"
proof -
  let ?first = "\<lparr>i_id = 1, match_id = 1, batting_team_id = 1, bowling_team_id = 2,
           total_runs = 4, wickets = 0, overs_bowled = 0, balls_bowled = 1, is_completed = False\<rparr>"
  let ?second = "\<lparr>i_id = 2, match_id = 1, batting_team_id = 2, bowling_team_id = 1,
           total_runs = 0, wickets = 10, overs_bowled = 1, balls_bowled = 4, is_completed = True\<rparr>"
  let ?match = "\<lparr>m_id = 1, match_date = 0, venue = None, status = COMPLETED,
         tournament_id = None, team1_id = 1, team2_id = 2,
         toss_winner_id = Some 1, toss_decision = Some BAT, winner_id = Some 1\<rparr>"
  have reach: "reachable ex_nine_down"
    unfolding ex_nine_down_def by (rule reachable_play [OF reachable_ex_tossed])
  have ok: "record_delivery ex_nine_down 1 (ball 2 0 True False) =
      (Inr (Some \<lparr>d_id = 11, inning_id = 2, batsman_id = 1, bowler_id = 2, runs_scored = 0,
         is_extra = False, extra_type = None, is_wicket = True, wicket_type = None\<rparr>), ex_ten_down)"
    by (simp add: ex_ten_down_def model_defs ex_nine_down_tables ball_def)
  have fr: "all_innings ex_ten_down 1 = ?first # [?second]"
    by (simp add: ex_ten_down_def model_defs ex_nine_down_tables ball_def)
  have gi: "get_inning ex_ten_down (dc_inning_id (ball 2 0 True False)) = Some ?second"
    by (simp add: ex_ten_down_def model_defs ex_nine_down_tables ball_def)
  have gm: "get_match_by_id ex_ten_down 1 = Some ?match"
    by (simp add: ex_ten_down_def model_defs ex_nine_down_tables ball_def)
  have "status ?match = COMPLETED \<and> is_completed ?second \<and>
    batting_team_id ?first = bowling_team_id ?second \<and>
    (total_runs ?first > total_runs ?second \<longrightarrow> winner_id ?match = Some (batting_team_id ?first)) \<and>
    (total_runs ?second > total_runs ?first \<longrightarrow> winner_id ?match = Some (batting_team_id ?second)) \<and>
    (total_runs ?second = total_runs ?first \<longrightarrow> winner_id ?match = None)"
    by (rule natural_completion_winner [OF reach ok fr gi _ _ gm]) simp_all
  with fr gm show ?thesis
    by simp
qed

subsection \<open>C3: the toss creates the two innings\<close>

text \<open>
  C3. The match exists, has no innings and the toss winner is one of its two teams. Then
  \<open>update_match_toss\<close> succeeds and the match has exactly two innings, in id order
  \<open>i1\<close>, \<open>i2\<close>: on \<open>BAT\<close> the toss winner bats in \<open>i1\<close> and the other team bowls, on
  \<open>FIELD\<close> the toss winner bowls in \<open>i1\<close> and the other team bats; \<open>i2\<close> has the teams
  swapped; all counters are 0 and neither inning is completed.
\<close>

theorem toss_creates_two_innings:
  assumes m: "get_match_by_id db mid = Some m"
    and e: "innings_of (innings db) mid = []"
    and w: "td_toss_winner_id td \<in> {team1_id m, team2_id m}"
  shows "\<exists>m' db' i1 i2. update_match_toss db mid td = (Some m', db') \<and>
      all_innings db' mid = [i1, i2] \<and> i_id i1 < i_id i2 \<and>
      (td_decision td = BAT \<longrightarrow> batting_team_id i1 = td_toss_winner_id td
          \<and> {td_toss_winner_id td, bowling_team_id i1} = {team1_id m, team2_id m}) \<and>
      (td_decision td = FIELD \<longrightarrow> bowling_team_id i1 = td_toss_winner_id td
          \<and> {td_toss_winner_id td, batting_team_id i1} = {team1_id m, team2_id m}) \<and>
      batting_team_id i2 = bowling_team_id i1 \<and> bowling_team_id i2 = batting_team_id i1 \<and>
      map total_runs [i1, i2] = [0, 0] \<and> map wickets [i1, i2] = [0, 0] \<and>
      map overs_bowled [i1, i2] = [0, 0] \<and> map balls_bowled [i1, i2] = [0, 0] \<and>
      map is_completed [i1, i2] = [False, False]"
proof -
  from m have mm: "m_id m = mid"
    by (auto simp: get_match_by_id_def find_Some_iff)
  show ?thesis
  proof (cases "td_decision td")
    case BAT
    with m mm e w show ?thesis
      by (auto simp: update_match_toss_def Let_def all_innings_def innings_of_def)
  next
    case FIELD
    with m mm e w show ?thesis
      by (auto simp: update_match_toss_def Let_def all_innings_def innings_of_def)
  qed
qed

theorem toss_creates_two_innings_witness:
  "map batting_team_id (all_innings ex_tossed 1) = [1, 2] \<and>
   map bowling_team_id (all_innings ex_tossed 1) = [2, 1] \<and>
   map total_runs (all_innings ex_tossed 1) = [0, 0] \<and>
   map is_completed (all_innings ex_tossed 1) = [False, False]"
proof -
  let ?m = "\<lparr>m_id = 1, match_date = 0, venue = None, status = SCHEDULED,
         tournament_id = None, team1_id = 1, team2_id = 2,
         toss_winner_id = None, toss_decision = None, winner_id = None\<rparr>"
  let ?td = "\<lparr>td_toss_winner_id = 1, td_decision = BAT\<rparr>"
  have m: "get_match_by_id ex_created 1 = Some ?m"
    by (simp add: model_defs example_defs)
  have e: "innings_of (innings ex_created) 1 = []"
    by (simp add: model_defs example_defs)
  have w: "td_toss_winner_id ?td \<in> {team1_id ?m, team2_id ?m}"
    by simp
  from toss_creates_two_innings [OF m e w] obtain m' db' i1 i2 where
    r: "update_match_toss ex_created 1 ?td = (Some m', db')" "all_innings db' 1 = [i1, i2]"
      "batting_team_id i1 = 1" "{1, bowling_team_id i1} = {1, 2}"
      "batting_team_id i2 = bowling_team_id i1" "bowling_team_id i2 = batting_team_id i1"
      "map total_runs [i1, i2] = [0, 0]" "map is_completed [i1, i2] = [False, False]"
    by auto
  from r(1) have "db' = ex_tossed"
    by (simp add: ex_tossed_def)
  moreover from r(4) have "bowling_team_id i1 = 2"
    by (auto simp: doubleton_eq_iff)
  ultimately show ?thesis
    using r by simp
qed

subsection \<open>C4: balls and overs\<close>

text \<open>
  C4. A sequence of deliveries is recorded, each accepted, from a state in which inning
  \<open>k\<close> has \<open>balls_bowled\<close> in 0..5. With \<open>n\<close> the number of those deliveries that are
  for inning \<open>k\<close> and are not extras, the inning ends with
  \<open>balls_bowled = (balls_bowled + n) mod 6\<close> and
  \<open>overs_bowled = overs_bowled + (balls_bowled + n) div 6\<close>: a legal delivery advances
  the ball count by one, the sixth ball resets it and adds an over, and an extra changes
  neither counter.
\<close>

theorem balls_and_overs:
  assumes "record_all db mid ds = Some db'" and "get_inning db k = Some a"
    and "0 \<le> balls_bowled a" and "balls_bowled a \<le> 5"
  shows "\<exists>a'. get_inning db' k = Some a' \<and>
     balls_bowled a' = (balls_bowled a + legal_balls k ds) mod 6 \<and>
     overs_bowled a' = overs_bowled a + (balls_bowled a + legal_balls k ds) div 6"
proof -
  from record_all_balls [OF assms] obtain a' where
    a': "get_inning db' k = Some a'" "0 \<le> balls_bowled a'" "balls_bowled a' \<le> 5"
    "6 * overs_bowled a' + balls_bowled a' = 6 * overs_bowled a + balls_bowled a + legal_balls k ds"
    by blast
  then have e: "balls_bowled a + legal_balls k ds = 6 * (overs_bowled a' - overs_bowled a) + balls_bowled a'"
    by simp
  have "(balls_bowled a + legal_balls k ds) div 6 = overs_bowled a' - overs_bowled a"
    using e a'(2,3) by (intro int_div_pos_eq [where r = "balls_bowled a'"]) simp_all
  moreover have "(balls_bowled a + legal_balls k ds) mod 6 = balls_bowled a'"
    using e a'(2,3) by (intro int_mod_pos_eq [where q = "overs_bowled a' - overs_bowled a"]) simp_all
  ultimately show ?thesis
    using a'(1) by simp
qed

text \<open>Seven legal balls and a wide from 0.0 overs give 1.1 overs.\<close>

theorem balls_and_overs_witness:
  "map_option balls_bowled (get_inning ex_second_over 1) = Some 1 \<and>
   map_option overs_bowled (get_inning ex_second_over 1) = Some 1"
proof -
  let ?a = "\<lparr>i_id = 1, match_id = 1, batting_team_id = 1, bowling_team_id = 2,
         total_runs = 0, wickets = 0, overs_bowled = 0, balls_bowled = 0, is_completed = False\<rparr>"
  have g: "get_inning ex_tossed 1 = Some ?a"
    by (simp add: ex_tossed_eq get_inning_def)
  have n: "legal_balls 1 ex_eight_balls = 7"
    by (simp add: legal_balls_def ex_eight_balls_def ball_def)
  from balls_and_overs [OF ex_second_over_ok g] obtain a' where
    "get_inning ex_second_over 1 = Some a'"
    "balls_bowled a' = (balls_bowled ?a + legal_balls 1 ex_eight_balls) mod 6"
    "overs_bowled a' = overs_bowled ?a + (balls_bowled ?a + legal_balls 1 ex_eight_balls) div 6"
    by auto
  then show ?thesis
    by (simp add: n)
qed

subsection \<open>C5: a violated precondition changes nothing\<close>

text \<open>
  C5, as amended. When a precondition is violated (the match already has innings at the
  toss; for a delivery the inning is missing, belongs to another match, its match is
  \<open>COMPLETED\<close>, or it is completed itself) the operation returns \<open>None\<close> and the
  database is unchanged. \<open>None\<close> is the only signal: no error kind tells the violated
  preconditions apart.
\<close>

theorem failed_preconditions_change_nothing:
  "(innings_of (innings db) mid \<noteq> [] \<longrightarrow> update_match_toss db mid td = (None, db)) \<and>
   (get_inning db (dc_inning_id d1) = None \<longrightarrow> record_delivery db mid d1 = (Inr None, db)) \<and>
   (get_inning db (dc_inning_id d2) = Some i2 \<and> match_id i2 \<noteq> mid2
      \<longrightarrow> record_delivery db mid2 d2 = (Inr None, db)) \<and>
   (get_inning db (dc_inning_id d3) = Some i3 \<and> get_match_by_id db (match_id i3) = Some m3
      \<and> status m3 = COMPLETED \<longrightarrow> record_delivery db mid d3 = (Inr None, db)) \<and>
   (get_inning db (dc_inning_id d4) = Some i4 \<and> get_match_by_id db (match_id i4) = Some m4
      \<and> is_completed i4 \<longrightarrow> record_delivery db mid d4 = (Inr None, db))"
proof (intro conjI impI)
  assume a: "innings_of (innings db) mid \<noteq> []"
  show "update_match_toss db mid td = (None, db)"
  proof (cases "get_match_by_id db mid")
    case None
    then show ?thesis by (simp add: update_match_toss_def)
  next
    case (Some m)
    then have "m_id m = mid"
      by (auto simp: get_match_by_id_def find_Some_iff)
    with Some a show ?thesis by (simp add: update_match_toss_def)
  qed
qed (auto simp: record_delivery_def)

theorem failed_preconditions_change_nothing_witness:
  "update_match_toss ex_allout 1 \<lparr>td_toss_winner_id = 2, td_decision = FIELD\<rparr> = (None, ex_allout) \<and>
   record_delivery ex_allout 1 (ball 7 0 False False) = (Inr None, ex_allout) \<and>
   record_delivery ex_allout 5 (ball 2 0 False False) = (Inr None, ex_allout) \<and>
   record_delivery ex_ten_down 1 (ball 1 0 False False) = (Inr None, ex_ten_down) \<and>
   record_delivery ex_allout 1 (ball 1 0 False False) = (Inr None, ex_allout)"
proof -
  let ?m = "\<lparr>m_id = 1, match_date = 0, venue = None, status = LIVE,
         tournament_id = None, team1_id = 1, team2_id = 2,
         toss_winner_id = Some 1, toss_decision = Some BAT, winner_id = None\<rparr>"
  let ?i1 = "\<lparr>i_id = 1, match_id = 1, batting_team_id = 1, bowling_team_id = 2,
         total_runs = 0, wickets = 10, overs_bowled = 1, balls_bowled = 4, is_completed = True\<rparr>"
  let ?i2 = "\<lparr>i_id = 2, match_id = 1, batting_team_id = 2, bowling_team_id = 1,
         total_runs = 0, wickets = 0, overs_bowled = 0, balls_bowled = 0, is_completed = False\<rparr>"
  let ?m3 = "\<lparr>m_id = 1, match_date = 0, venue = None, status = COMPLETED,
         tournament_id = None, team1_id = 1, team2_id = 2,
         toss_winner_id = Some 1, toss_decision = Some BAT, winner_id = Some 1\<rparr>"
  let ?i3 = "\<lparr>i_id = 1, match_id = 1, batting_team_id = 1, bowling_team_id = 2,
           total_runs = 4, wickets = 0, overs_bowled = 0, balls_bowled = 1, is_completed = False\<rparr>"
  have h1: "innings_of (innings ex_allout) 1 \<noteq> []"
    by (simp add: ex_allout_tables innings_of_def)
  have h2: "get_inning ex_allout (dc_inning_id (ball 7 0 False False)) = None"
    by (simp add: ex_allout_tables get_inning_def ball_def)
  have h3: "get_inning ex_allout (dc_inning_id (ball 2 0 False False)) = Some ?i2 \<and> match_id ?i2 \<noteq> 5"
    by (simp add: ex_allout_tables get_inning_def ball_def)
  have h4: "get_inning ex_ten_down (dc_inning_id (ball 1 0 False False)) = Some ?i3
      \<and> get_match_by_id ex_ten_down (match_id ?i3) = Some ?m3 \<and> status ?m3 = COMPLETED"
    by (simp add: ex_ten_down_def model_defs ex_nine_down_tables ball_def)
  have h5: "get_inning ex_allout (dc_inning_id (ball 1 0 False False)) = Some ?i1
      \<and> get_match_by_id ex_allout (match_id ?i1) = Some ?m \<and> is_completed ?i1"
    by (simp add: ex_allout_tables get_inning_def get_match_by_id_def ball_def)
  from failed_preconditions_change_nothing [of ex_allout 1
      "\<lparr>td_toss_winner_id = 2, td_decision = FIELD\<rparr>" "ball 7 0 False False"
      "ball 2 0 False False" ?i2 5] h1 h2 h3
  have a: "update_match_toss ex_allout 1 \<lparr>td_toss_winner_id = 2, td_decision = FIELD\<rparr> = (None, ex_allout)"
    "record_delivery ex_allout 1 (ball 7 0 False False) = (Inr None, ex_allout)"
    "record_delivery ex_allout 5 (ball 2 0 False False) = (Inr None, ex_allout)"
    by blast+
  from failed_preconditions_change_nothing [of ex_ten_down 1 _ _ _ _ _ "ball 1 0 False False" ?i3 ?m3] h4
  have b: "record_delivery ex_ten_down 1 (ball 1 0 False False) = (Inr None, ex_ten_down)"
    by blast
  from failed_preconditions_change_nothing [of ex_allout 1 _ _ _ _ _ _ _ _ "ball 1 0 False False" ?i1 ?m] h5
  have c: "record_delivery ex_allout 1 (ball 1 0 False False) = (Inr None, ex_allout)"
    by blast
  from a b c show ?thesis by simp
qed

text \<open>
  The claim as stated asks for one distinct error kind per violated precondition. A
  missing inning, a completed inning and an inning of another match are all answered
  with the same \<open>None\<close>.
\<close>

theorem rejections_are_indistinguishable:
  "record_delivery ex_allout 1 (ball 7 0 False False) = (Inr None, ex_allout) \<and>
   record_delivery ex_allout 1 (ball 1 0 False False) = (Inr None, ex_allout) \<and>
   record_delivery ex_allout 5 (ball 2 0 False False) = (Inr None, ex_allout) \<and>
   get_inning ex_allout 7 = None \<and>
   map_option is_completed (get_inning ex_allout 1) = Some True \<and>
   map_option match_id (get_inning ex_allout 2) = Some 1 \<and>
   map_option is_completed (get_inning ex_allout 2) = Some False \<and>
   map_option status (get_match_by_id ex_allout 1) = Some LIVE"
  by (simp add: record_delivery_def get_inning_def get_match_by_id_def ex_allout_tables ball_def)

subsection \<open>C6: when the match becomes completed\<close>

text \<open>
  C6, as amended. When an accepted delivery leaves the match \<open>COMPLETED\<close>, the delivery
  was for an inning that is not the first of its match by id, and that inning is
  completed by the same delivery. Whether the first-created inning is completed is not
  checked.
\<close>

theorem completed_only_by_second_inning:
  assumes pk: "distinct (map i_id (innings db))"
    and ok: "record_delivery db mid d = (Inr (Some dl), db')"
    and fr: "all_innings db' mid = first # rest"
    and gi: "get_inning db' (dc_inning_id d) = Some inning'"
    and gm: "get_match_by_id db' mid = Some match'"
    and st: "status match' = COMPLETED"
  shows "i_id inning' \<noteq> i_id first \<and> is_completed inning'"
proof -
  from ok pk obtain inning match f0 r0 i' m' where
    st0: "status match \<noteq> COMPLETED"
    and ce: "check_end (go_live match) (update_score inning d)
       (if i_id f0 = i_id inning then update_score inning d else f0) = (i', m')"
    and gi': "get_inning db' (dc_inning_id d) = Some i'"
    and gm': "get_match_by_id db' mid = Some m'"
    and ai: "all_innings db' mid = put_inning i' (f0 # r0)"
    by (rule record_delivery_okE)
  from gi gi' gm gm' have eq: "i' = inning'" "m' = match'" by simp_all
  let ?f = "if i_id f0 = i_id inning then update_score inning d else f0"
  have "status (go_live match) \<noteq> COMPLETED"
    using st0 by simp
  moreover have "status (snd (check_end (go_live match) (update_score inning d) ?f)) = COMPLETED"
    using ce st eq by simp
  ultimately have r: "i_id (update_score inning d) \<noteq> i_id ?f
      \<and> is_completed (fst (check_end (go_live match) (update_score inning d) ?f))"
    by (rule check_end_completed)
  then have ne: "i_id f0 \<noteq> i_id inning"
    by (auto split: if_splits)
  have i'_id: "i_id i' = i_id inning"
    using ce by (metis check_end_keeps(1) update_score_keeps(1) fst_conv)
  from ai fr have "first = (if i_id f0 = i_id i' then i' else f0)"
    by (simp add: put_inning_def)
  with ne i'_id have "first = f0" by simp
  with r ne ce eq i'_id show ?thesis by auto
qed

theorem completed_only_by_second_inning_witness:
  "map_option status (get_match_by_id ex_early_win 1) = Some COMPLETED \<and>
   map i_id (all_innings ex_early_win 1) = [1, 2] \<and>
   map_option i_id (get_inning ex_early_win 2) = Some 2 \<and>
   map_option is_completed (get_inning ex_early_win 2) = Some True"
proof -
  let ?first = "\<lparr>i_id = 1, match_id = 1, batting_team_id = 1, bowling_team_id = 2,
         total_runs = 0, wickets = 0, overs_bowled = 0, balls_bowled = 0, is_completed = False\<rparr>"
  let ?second = "\<lparr>i_id = 2, match_id = 1, batting_team_id = 2, bowling_team_id = 1,
         total_runs = 1, wickets = 0, overs_bowled = 0, balls_bowled = 1, is_completed = True\<rparr>"
  let ?match = "\<lparr>m_id = 1, match_date = 0, venue = None, status = COMPLETED,
         tournament_id = None, team1_id = 1, team2_id = 2,
         toss_winner_id = Some 1, toss_decision = Some BAT, winner_id = Some 2\<rparr>"
  have pk: "distinct (map i_id (innings ex_tossed))"
    by (simp add: ex_tossed_eq)
  have fr: "all_innings ex_early_win 1 = ?first # [?second]"
    by (simp add: ex_early_win_tables all_innings_def innings_of_def)
  have gi: "get_inning ex_early_win (dc_inning_id (ball 2 1 False False)) = Some ?second"
    by (simp add: ex_early_win_tables get_inning_def ball_def)
  have gm: "get_match_by_id ex_early_win 1 = Some ?match"
    by (simp add: ex_early_win_tables get_match_by_id_def)
  have st: "status ?match = COMPLETED"
    by simp
  from completed_only_by_second_inning [OF pk ex_early_win_ok fr gi gm st]
  have "i_id ?second \<noteq> i_id ?first \<and> is_completed ?second" .
  with fr gi gm show ?thesis
    by (simp add: ball_def)
qed

text \<open>
  The claim as stated also says that the match is never \<open>COMPLETED\<close> while the
  first-created inning is not completed. Right after the toss a single scored in the
  second-created inning is accepted: 1 run is more than 0, the chase is complete and the
  match is \<open>COMPLETED\<close> while the first-created inning has not been completed.
\<close>

theorem completed_before_first_inning_ends:
  "reachable ex_tossed \<and>
   map_option status (get_match_by_id ex_tossed 1) = Some SCHEDULED \<and>
   fst (record_delivery ex_tossed 1 (ball 2 1 False False)) =
     Inr (Some \<lparr>d_id = 1, inning_id = 2, batsman_id = 1, bowler_id = 2, runs_scored = 1,
         is_extra = False, extra_type = None, is_wicket = False, wicket_type = None\<rparr>) \<and>
   map_option status (get_match_by_id (snd (record_delivery ex_tossed 1 (ball 2 1 False False))) 1)
     = Some COMPLETED \<and>
   map i_id (all_innings (snd (record_delivery ex_tossed 1 (ball 2 1 False False))) 1) = [1, 2] \<and>
   map is_completed (all_innings (snd (record_delivery ex_tossed 1 (ball 2 1 False False))) 1)
     = [False, True]"
  using reachable_ex_tossed ex_early_win_ok
  by (simp add: ex_early_win_tables get_match_by_id_def all_innings_def innings_of_def)
     (simp add: ex_tossed_eq)

subsection \<open>C7: the innings are played one after the other\<close>

text \<open>
  C7, as amended. In every state reached by operations whose scoring requests keep the
  order of the innings (each is for the first-created inning of its match, or is made
  when that inning is completed), an inning other than the first-created one has
  deliveries only if the first-created inning is completed.
\<close>

theorem second_inning_waits_for_first:
  assumes "reachable_in_order db"
    and "all_innings db mid = first # rest"
    and "i \<in> set rest"
    and "dl \<in> set (deliveries db)"
    and "inning_id dl = i_id i"
  shows "is_completed first"
  using in_order_invariants [OF assms(1)] assms(2-5)
  unfolding waits_ok_def by metis

theorem second_inning_waits_for_first_witness:
  "map is_completed (all_innings ex_second_started 1) = [True, False] \<and>
   map inning_id (deliveries ex_second_started) = [1, 1, 1, 1, 1, 1, 1, 1, 1, 1, 2]"
proof -
  let ?first = "\<lparr>i_id = 1, match_id = 1, batting_team_id = 1, bowling_team_id = 2,
         total_runs = 0, wickets = 10, overs_bowled = 1, balls_bowled = 4, is_completed = True\<rparr>"
  let ?second = "\<lparr>i_id = 2, match_id = 1, batting_team_id = 2, bowling_team_id = 1,
         total_runs = 0, wickets = 0, overs_bowled = 0, balls_bowled = 1, is_completed = False\<rparr>"
  let ?dl = "\<lparr>d_id = 11, inning_id = 2, batsman_id = 1, bowler_id = 2,
       runs_scored = 0, is_extra = False, extra_type = None, is_wicket = False, wicket_type = None\<rparr>"
  have reach: "reachable_in_order ex_second_started"
    by (rule reachable_play_in_order [OF reachable_in_order_ex_tossed ex_second_started_in_order])
  have fr: "all_innings ex_second_started 1 = ?first # [?second]"
    by (simp add: ex_second_started_tables all_innings_def innings_of_def)
  have i: "?second \<in> set [?second]"
    by simp
  have "deliveries ex_second_started \<noteq> []"
    using ex_second_started_tables(2) by auto
  then have dl: "?dl \<in> set (deliveries ex_second_started)"
    using ex_second_started_tables(3) last_in_set by metis
  have ref: "inning_id ?dl = i_id ?second"
    by simp
  from second_inning_waits_for_first [OF reach fr i dl ref] have "is_completed ?first" .
  with fr show ?thesis
    by (simp add: ex_second_started_tables)
qed

text \<open>
  The claim as stated holds for every sequence of operations. \<open>record_delivery\<close> accepts
  a dot ball for the second-created inning right after the toss: that inning has a
  delivery and neither inning is completed.
\<close>

theorem both_innings_open:
  "reachable ex_both_open \<and>
   map inning_id (deliveries ex_both_open) = [2] \<and>
   map i_id (all_innings ex_both_open 1) = [1, 2] \<and>
   map is_completed (all_innings ex_both_open 1) = [False, False]"
proof -
  have "reachable ex_both_open"
    unfolding ex_both_open_def by (rule r_deliver [OF reachable_ex_tossed])
  then show ?thesis
    unfolding ex_both_open_def ex_tossed_eq
    by (simp add: model_defs ball_def)
qed

subsection \<open>C8: the total only grows by what is scored\<close>

text \<open>
  C8. A sequence of deliveries is recorded, each accepted. The \<open>total_runs\<close> of inning
  \<open>k\<close> grows by exactly the sum, over the deliveries for inning \<open>k\<close>, of \<open>runs_scored\<close>
  plus 1 for an extra; when no delivery has negative \<open>runs_scored\<close> the total does not
  decrease.
\<close>

theorem total_runs_increase:
  assumes "record_all db mid ds = Some db'" and "get_inning db k = Some a"
  shows "\<exists>a'. get_inning db' k = Some a' \<and>
           total_runs a' = total_runs a + sum_list (map runs_added (filter (\<lambda>d. dc_inning_id d = k) ds)) \<and>
           ((\<forall>d\<in>set ds. 0 \<le> dc_runs_scored d) \<longrightarrow> total_runs a \<le> total_runs a')"
proof -
  from record_all_total_runs [OF assms] obtain a' where
    a': "get_inning db' k = Some a'"
      "total_runs a' = total_runs a + sum_list (map runs_added (filter (\<lambda>d. dc_inning_id d = k) ds))"
    by blast
  have "0 \<le> sum_list (map runs_added (filter (\<lambda>d. dc_inning_id d = k) ds))"
    if "\<forall>d\<in>set ds. 0 \<le> dc_runs_scored d"
    using that by (intro sum_list_nonneg) (auto simp: runs_added_def)
  with a' show ?thesis by auto
qed

theorem total_runs_increase_witness:
  "map_option total_runs (get_inning ex_scored 1) = Some 5"
proof -
  let ?a = "\<lparr>i_id = 1, match_id = 1, batting_team_id = 1, bowling_team_id = 2,
         total_runs = 0, wickets = 0, overs_bowled = 0, balls_bowled = 0, is_completed = False\<rparr>"
  have g: "get_inning ex_tossed 1 = Some ?a"
    by (simp add: ex_tossed_eq get_inning_def)
  from total_runs_increase [OF ex_scored_ok g] obtain a' where
    "get_inning ex_scored 1 = Some a'"
    "total_runs a' = total_runs ?a + sum_list (map runs_added (filter (\<lambda>d. dc_inning_id d = 1) ex_over))"
    by blast
  then show ?thesis
    by (simp add: ex_over_def ball_def runs_added_def)
qed

subsection \<open>C9: at most ten wickets\<close>

text \<open>
  C9. In every reachable state every inning has at most 10 wickets, and an inning with
  10 wickets is completed.
\<close>

theorem wickets_never_exceed_ten:
  assumes "reachable db" and "i \<in> set (innings db)"
  shows "wickets i \<le> 10 \<and> (wickets i = 10 \<longrightarrow> is_completed i)"
  using reachable_wickets_ok [OF assms(1)] assms(2) by (simp add: wickets_ok_def)

theorem wickets_never_exceed_ten_witness:
  "map wickets (innings ex_allout) = [10, 0] \<and> map is_completed (innings ex_allout) = [True, False]"
proof -
  let ?i = "\<lparr>i_id = 1, match_id = 1, batting_team_id = 1, bowling_team_id = 2,
         total_runs = 0, wickets = 10, overs_bowled = 1, balls_bowled = 4, is_completed = True\<rparr>"
  have reach: "reachable ex_allout"
    unfolding ex_allout_def by (rule reachable_play [OF reachable_ex_tossed])
  have mem: "?i \<in> set (innings ex_allout)"
    by (simp add: ex_allout_tables)
  from wickets_never_exceed_ten [OF reach mem] show ?thesis
    by (simp add: ex_allout_tables)
qed

subsection \<open>C10: a toss winner that does not play the match\<close>

text \<open>
  C10, as amended. When the toss winner is not one of the match's two teams, the endpoint
  \<open>record_toss\<close> raises the HTTP error 400 and changes nothing: the check is made by the
  caller (main.py lines 143-144), before \<open>update_match_toss\<close> is called.
\<close>

theorem record_toss_rejects_foreign_winner:
  assumes "get_match_by_id db mid = Some m"
    and "td_toss_winner_id td \<notin> {team1_id m, team2_id m}"
  shows "record_toss db mid td =
      (Inl (HTTPException 400 ''Toss winner must be one of the two teams in the match.''), db)"
  using assms by (simp add: record_toss_def)

theorem record_toss_rejects_foreign_winner_witness:
  "record_toss ex_created 1 ex_foreign_toss =
      (Inl (HTTPException 400 ''Toss winner must be one of the two teams in the match.''), ex_created)"
proof -
  let ?m = "\<lparr>m_id = 1, match_date = 0, venue = None, status = SCHEDULED,
         tournament_id = None, team1_id = 1, team2_id = 2,
         toss_winner_id = None, toss_decision = None, winner_id = None\<rparr>"
  have m: "get_match_by_id ex_created 1 = Some ?m"
    by (simp add: model_defs example_defs)
  have w: "td_toss_winner_id ex_foreign_toss \<notin> {team1_id ?m, team2_id ?m}"
    by (simp add: ex_foreign_toss_def)
  show ?thesis
    by (rule record_toss_rejects_foreign_winner [OF m w])
qed

text \<open>
  The claim as stated has \<open>update_match_toss\<close> itself fail. It has no check of the toss
  winner against the two teams of the match: for the match of teams 1 and 2 it accepts
  team 99, a registered team that does not play the match, records it as the toss winner
  and lets it bat first.
\<close>

theorem core_accepts_foreign_winner:
  "map_option team1_id (get_match_by_id ex_created 1) = Some 1 \<and>
   map_option team2_id (get_match_by_id ex_created 1) = Some 2 \<and>
   td_toss_winner_id ex_foreign_toss = 99 \<and>
   map_option toss_winner_id (fst (update_match_toss ex_created 1 ex_foreign_toss)) = Some (Some 99) \<and>
   map batting_team_id (innings (snd (update_match_toss ex_created 1 ex_foreign_toss))) = [99, 1] \<and>
   innings ex_created = []"
  by (simp add: model_defs example_defs ex_foreign_toss_def)

end
